theory Spec2Isabelle
  imports Complex_Main
begin

section \<open>Python values and failures\<close>

text \<open>
  Python integers are unbounded and are modelled by \<open>int\<close>. Python floats are idealised
  as exact rationals (\<open>rat\<close>): rounding is not modelled. A raised exception is the
  left summand of a result.
\<close>

datatype error = StatisticsError | ZeroDivisionError

definition and_then :: "error + 'a \<Rightarrow> ('a \<Rightarrow> error + 'b) \<Rightarrow> error + 'b" where
  "and_then r f = (case r of Inl e \<Rightarrow> Inl e | Inr x \<Rightarrow> f x)"

text \<open>A dict is an association list in insertion order with distinct keys;
  \<open>d[k] = v\<close> overwrites in place or appends.\<close>

primrec dict_set :: "('k \<times> 'v) list \<Rightarrow> 'k \<Rightarrow> 'v \<Rightarrow> ('k \<times> 'v) list" where
  "dict_set [] k v = [(k, v)]"
| "dict_set (p # ps) k v = (if fst p = k then (k, v) # ps else p # dict_set ps k v)"

definition dict_values :: "('k \<times> 'v) list \<Rightarrow> 'v list" where
  "dict_values d = map snd d"

section \<open>ck\_metrics.py: result types\<close>

record MethodMetrics =
  complexity :: int

record ClassMetrics =
  wmc :: int
  dit :: int
  noc :: int
  cbo :: int
  rfc :: int
  lcom4 :: int
  lcom4_normalized :: rat
  methods_dict :: "(string \<times> MethodMetrics) list"

record FileMetrics =
  file_classes :: "(string \<times> ClassMetrics) list"
  path :: string

record ProjectMetrics =
  files :: "(string \<times> FileMetrics) list"
  class_summary :: "(string \<times> ClassMetrics) list"

section \<open>The syntax trees of Python's \<open>ast\<close> module\<close>

text \<open>
  The parser is external; the trees it yields are modelled by the node kinds the two
  visitors of ck\_metrics.py distinguish. Every other expression kind (binary and unary
  operators, comparisons, subscripts, displays, constants, ...) is \<open>OtherExpr\<close> with its
  child expressions, and every other statement kind without nested statements
  (expression statements, augmented assignments, \<open>pass\<close>, imports, ...) is \<open>OtherStmt\<close>
  with its child expressions: both visitors only walk through them. The \<open>arguments\<close> of
  a function or lambda and the pattern of a \<open>case\<close> arm are given by the expressions
  they contain.
\<close>

datatype boolop = And | Or

datatype expr =
    Name string
  | Attribute expr string
  | Call expr "expr list" "expr list"
  | BoolOp boolop "expr list"
  | IfExp expr expr expr
  | Lambda "expr list" expr
  | NamedExpr expr expr
  | ListComp expr "comprehension list"
  | SetComp expr "comprehension list"
  | DictComp expr expr "comprehension list"
  | GeneratorExp expr "comprehension list"
  | Yield "expr option"
  | YieldFrom expr
  | OtherExpr "expr list"
and comprehension =
    Comprehension expr expr "expr list"

text \<open>
  \<open>Call func args keywords\<close> (the keywords by their values),
  \<open>Lambda args body\<close>, \<open>Comprehension target iter ifs\<close>,
  \<open>FunctionDef name args body decorator_list\<close> (\<open>args\<close> with the return annotation),
  \<open>ClassDef name bases keywords body decorator_list\<close>,
  \<open>AnnAssign target annotation value\<close>, \<open>For target iter body orelse\<close>,
  \<open>With items body\<close> (an item is \<open>(context_expr, optional_vars)\<close>),
  \<open>Try body handlers orelse finalbody\<close>, \<open>ExceptHandler type body\<close>,
  \<open>MatchCase pattern guard body\<close>.
\<close>

datatype stmt =
    FunctionDef string "expr list" "stmt list" "expr list"
  | AsyncFunctionDef string "expr list" "stmt list" "expr list"
  | ClassDef string "expr list" "expr list" "stmt list" "expr list"
  | Return "expr option"
  | Assign "expr list" expr
  | AnnAssign expr expr "expr option"
  | For expr expr "stmt list" "stmt list"
  | AsyncFor expr expr "stmt list" "stmt list"
  | While expr "stmt list" "stmt list"
  | If expr "stmt list" "stmt list"
  | With "(expr \<times> expr option) list" "stmt list"
  | AsyncWith "(expr \<times> expr option) list" "stmt list"
  | Match expr "match_case list"
  | Raise "expr option" "expr option"
  | Try "stmt list" "excepthandler list" "stmt list" "stmt list"
  | Assert expr "expr option"
  | OtherStmt "expr list"
and excepthandler =
    ExceptHandler "expr option" "stmt list"
and match_case =
    MatchCase "expr list" "expr option" "stmt list"

subsection \<open>ComplexityVisitor\<close>

text \<open>
  The visitor's state is its field \<open>complexity\<close>; a visit takes the value before and
  returns the value after. A \<open>visit_X\<close> method adds its increment and then calls
  \<open>generic_visit\<close>, which visits every child node.
\<close>

fun cv_expr :: "expr \<Rightarrow> int \<Rightarrow> int"
  and cv_comprehension :: "comprehension \<Rightarrow> int \<Rightarrow> int" where
  "cv_expr (Name i) c = c"
| "cv_expr (Attribute v a) c = cv_expr v c"
| "cv_expr (Call f args kws) c = fold cv_expr kws (fold cv_expr args (cv_expr f c))"
| "cv_expr (BoolOp op vals) c = fold cv_expr vals (c + (int (length vals) - 1))"
| "cv_expr (IfExp t b e) c = cv_expr e (cv_expr b (cv_expr t (c + 1)))"
| "cv_expr (Lambda args b) c = cv_expr b (fold cv_expr args c)"
| "cv_expr (NamedExpr t v) c = cv_expr v (cv_expr t c)"
| "cv_expr (ListComp elt gens) c =
     fold cv_comprehension gens (cv_expr elt
       (fold (\<lambda>generator c. c + int (length (case generator of Comprehension t i ifs \<Rightarrow> ifs))) gens c))"
| "cv_expr (SetComp elt gens) c =
     fold cv_comprehension gens (cv_expr elt
       (fold (\<lambda>generator c. c + int (length (case generator of Comprehension t i ifs \<Rightarrow> ifs))) gens c))"
| "cv_expr (DictComp k v gens) c =
     fold cv_comprehension gens (cv_expr v (cv_expr k
       (fold (\<lambda>generator c. c + int (length (case generator of Comprehension t i ifs \<Rightarrow> ifs))) gens c)))"
| "cv_expr (GeneratorExp elt gens) c =
     fold cv_comprehension gens (cv_expr elt
       (fold (\<lambda>generator c. c + int (length (case generator of Comprehension t i ifs \<Rightarrow> ifs))) gens c))"
| "cv_expr (Yield v) c = (case v of None \<Rightarrow> c | Some e \<Rightarrow> cv_expr e c)"
| "cv_expr (YieldFrom v) c = cv_expr v c"
| "cv_expr (OtherExpr es) c = fold cv_expr es c"
| "cv_comprehension (Comprehension t i ifs) c = fold cv_expr ifs (cv_expr i (cv_expr t c))"

text \<open>The items of a \<open>with\<close> statement and the optional children of statements.\<close>

definition cv_opt :: "expr option \<Rightarrow> int \<Rightarrow> int" where
  "cv_opt node c = (case node of None \<Rightarrow> c | Some e \<Rightarrow> cv_expr e c)"

definition cv_withitem :: "expr \<times> expr option \<Rightarrow> int \<Rightarrow> int" where
  "cv_withitem item c = cv_opt (snd item) (cv_expr (fst item) c)"

fun cv_stmt :: "stmt \<Rightarrow> int \<Rightarrow> int"
  and cv_handler :: "excepthandler \<Rightarrow> int \<Rightarrow> int"
  and cv_case :: "match_case \<Rightarrow> int \<Rightarrow> int" where
  "cv_stmt (FunctionDef n args body decs) c = fold cv_expr decs (fold cv_stmt body (fold cv_expr args c))"
| "cv_stmt (AsyncFunctionDef n args body decs) c = fold cv_expr decs (fold cv_stmt body (fold cv_expr args c))"
| "cv_stmt (ClassDef n bs kws body decs) c =
     fold cv_expr decs (fold cv_stmt body (fold cv_expr kws (fold cv_expr bs c)))"
| "cv_stmt (Return v) c = cv_opt v c"
| "cv_stmt (Assign targets v) c = cv_expr v (fold cv_expr targets c)"
| "cv_stmt (AnnAssign t a v) c = cv_opt v (cv_expr a (cv_expr t c))"
| "cv_stmt (For t i body orelse) c = fold cv_stmt orelse (fold cv_stmt body (cv_expr i (cv_expr t (c + 1))))"
| "cv_stmt (AsyncFor t i body orelse) c = fold cv_stmt orelse (fold cv_stmt body (cv_expr i (cv_expr t (c + 1))))"
| "cv_stmt (While t body orelse) c = fold cv_stmt orelse (fold cv_stmt body (cv_expr t (c + 1)))"
| "cv_stmt (If t body orelse) c = fold cv_stmt orelse (fold cv_stmt body (cv_expr t (c + 1)))"
| "cv_stmt (With items body) c = fold cv_stmt body (fold cv_withitem items c)"
| "cv_stmt (AsyncWith items body) c = fold cv_stmt body (fold cv_withitem items c)"
| "cv_stmt (Match subject cases) c = fold cv_case cases (cv_expr subject (c + 1 + int (length cases)))"
| "cv_stmt (Raise e cause) c = cv_opt cause (cv_opt e c)"
| "cv_stmt (Try body handlers orelse finalbody) c =
     fold cv_stmt finalbody (fold cv_stmt orelse (fold cv_handler handlers (fold cv_stmt body c)))"
| "cv_stmt (Assert t msg) c = cv_opt msg (cv_expr t c)"
| "cv_stmt (OtherStmt es) c = fold cv_expr es c"
| "cv_handler (ExceptHandler t body) c = fold cv_stmt body (cv_opt t (c + 1))"
| "cv_case (MatchCase pattern guard body) c = fold cv_stmt body (cv_opt guard (fold cv_expr pattern c))"

text \<open>\<open>complexity_visitor = ComplexityVisitor(); complexity_visitor.visit(item)\<close>: the
  value of \<open>complexity_visitor.complexity\<close> afterwards. The constructor sets it to 1.\<close>

definition ComplexityVisitor_complexity :: "stmt \<Rightarrow> int" where
  "ComplexityVisitor_complexity item = cv_stmt item 1"

subsection \<open>MethodVisitor\<close>

text \<open>A Python \<open>set\<close> is a list without duplicates; \<open>s.add(x)\<close> appends when absent.\<close>

definition set_add :: "'a list \<Rightarrow> 'a \<Rightarrow> 'a list" where
  "set_add s x = (if x \<in> set s then s else s @ [x])"

definition set_update :: "'a list \<Rightarrow> 'a list \<Rightarrow> 'a list" where
  "set_update s xs = fold (\<lambda>x s. set_add s x) xs s"

record MethodVisitor =
  mv_method_calls :: "string list"
  mv_attributes :: "string list"
  mv_classes :: "string list"

text \<open>The part of \<open>visit_Call\<close> before \<open>generic_visit\<close>, for \<open>node.func\<close>.\<close>

fun visit_Call_func :: "expr \<Rightarrow> MethodVisitor \<Rightarrow> MethodVisitor" where
  "visit_Call_func (Name i) s = s\<lparr>mv_method_calls := set_add (mv_method_calls s) i\<rparr>"
| "visit_Call_func (Attribute (Name i) a) s =
     s\<lparr>mv_classes := set_add (mv_classes s) i, mv_method_calls := set_add (mv_method_calls s) a\<rparr>"
| "visit_Call_func (Attribute v a) s = s\<lparr>mv_method_calls := set_add (mv_method_calls s) a\<rparr>"
| "visit_Call_func func s = s"

text \<open>The part of \<open>visit_Attribute\<close> before \<open>generic_visit\<close>.\<close>

fun visit_Attribute_self :: "expr \<Rightarrow> string \<Rightarrow> MethodVisitor \<Rightarrow> MethodVisitor" where
  "visit_Attribute_self (Name i) a s =
     (if i = ''self'' then s\<lparr>mv_attributes := set_add (mv_attributes s) a\<rparr> else s)"
| "visit_Attribute_self v a s = s"

fun mv_expr :: "expr \<Rightarrow> MethodVisitor \<Rightarrow> MethodVisitor"
  and mv_comprehension :: "comprehension \<Rightarrow> MethodVisitor \<Rightarrow> MethodVisitor" where
  "mv_expr (Name i) s = s"
| "mv_expr (Attribute v a) s = mv_expr v (visit_Attribute_self v a s)"
| "mv_expr (Call f args kws) s = fold mv_expr kws (fold mv_expr args (mv_expr f (visit_Call_func f s)))"
| "mv_expr (BoolOp op vals) s = fold mv_expr vals s"
| "mv_expr (IfExp t b e) s = mv_expr e (mv_expr b (mv_expr t s))"
| "mv_expr (Lambda args b) s = mv_expr b (fold mv_expr args s)"
| "mv_expr (NamedExpr t v) s = mv_expr v (mv_expr t s)"
| "mv_expr (ListComp elt gens) s = fold mv_comprehension gens (mv_expr elt s)"
| "mv_expr (SetComp elt gens) s = fold mv_comprehension gens (mv_expr elt s)"
| "mv_expr (DictComp k v gens) s = fold mv_comprehension gens (mv_expr v (mv_expr k s))"
| "mv_expr (GeneratorExp elt gens) s = fold mv_comprehension gens (mv_expr elt s)"
| "mv_expr (Yield v) s = (case v of None \<Rightarrow> s | Some e \<Rightarrow> mv_expr e s)"
| "mv_expr (YieldFrom v) s = mv_expr v s"
| "mv_expr (OtherExpr es) s = fold mv_expr es s"
| "mv_comprehension (Comprehension t i ifs) s = fold mv_expr ifs (mv_expr t (mv_expr i s))"

definition mv_opt :: "expr option \<Rightarrow> MethodVisitor \<Rightarrow> MethodVisitor" where
  "mv_opt node s = (case node of None \<Rightarrow> s | Some e \<Rightarrow> mv_expr e s)"

definition mv_withitem :: "expr \<times> expr option \<Rightarrow> MethodVisitor \<Rightarrow> MethodVisitor" where
  "mv_withitem item s = mv_opt (snd item) (mv_expr (fst item) s)"

fun mv_stmt :: "stmt \<Rightarrow> MethodVisitor \<Rightarrow> MethodVisitor"
  and mv_handler :: "excepthandler \<Rightarrow> MethodVisitor \<Rightarrow> MethodVisitor"
  and mv_case :: "match_case \<Rightarrow> MethodVisitor \<Rightarrow> MethodVisitor" where
  "mv_stmt (FunctionDef n args body decs) s = fold mv_expr decs (fold mv_stmt body (fold mv_expr args s))"
| "mv_stmt (AsyncFunctionDef n args body decs) s = fold mv_expr decs (fold mv_stmt body (fold mv_expr args s))"
| "mv_stmt (ClassDef n bs kws body decs) s =
     fold mv_expr decs (fold mv_stmt body (fold mv_expr kws (fold mv_expr bs s)))"
| "mv_stmt (Return v) s = mv_opt v s"
| "mv_stmt (Assign targets v) s = mv_expr v (fold mv_expr targets s)"
| "mv_stmt (AnnAssign t a v) s = mv_opt v (mv_expr a (mv_expr t s))"
| "mv_stmt (For t i body orelse) s = fold mv_stmt orelse (fold mv_stmt body (mv_expr i (mv_expr t s)))"
| "mv_stmt (AsyncFor t i body orelse) s = fold mv_stmt orelse (fold mv_stmt body (mv_expr i (mv_expr t s)))"
| "mv_stmt (While t body orelse) s = fold mv_stmt orelse (fold mv_stmt body (mv_expr t s))"
| "mv_stmt (If t body orelse) s = fold mv_stmt orelse (fold mv_stmt body (mv_expr t s))"
| "mv_stmt (With items body) s = fold mv_stmt body (fold mv_withitem items s)"
| "mv_stmt (AsyncWith items body) s = fold mv_stmt body (fold mv_withitem items s)"
| "mv_stmt (Match subject cases) s = fold mv_case cases (mv_expr subject s)"
| "mv_stmt (Raise e cause) s = mv_opt cause (mv_opt e s)"
| "mv_stmt (Try body handlers orelse finalbody) s =
     fold mv_stmt finalbody (fold mv_stmt orelse (fold mv_handler handlers (fold mv_stmt body s)))"
| "mv_stmt (Assert t msg) s = mv_opt msg (mv_expr t s)"
| "mv_stmt (OtherStmt es) s = fold mv_expr es s"
| "mv_handler (ExceptHandler t body) s = fold mv_stmt body (mv_opt t s)"
| "mv_case (MatchCase pattern guard body) s = fold mv_stmt body (mv_opt guard (fold mv_expr pattern s))"

text \<open>\<open>method_visitor = MethodVisitor(); method_visitor.visit(item)\<close>.\<close>

definition MethodVisitor_visit :: "stmt \<Rightarrow> MethodVisitor" where
  "MethodVisitor_visit item =
     mv_stmt item \<lparr>mv_method_calls = [], mv_attributes = [], mv_classes = []\<rparr>"

section \<open>ck\_metrics.py: the class model\<close>

definition dict_get :: "('k \<times> 'v) list \<Rightarrow> 'k \<Rightarrow> 'v \<Rightarrow> 'v" where
  "dict_get d k dflt = (case map_of d k of None \<Rightarrow> dflt | Some v \<Rightarrow> v)"

definition dict_contains :: "('k \<times> 'v) list \<Rightarrow> 'k \<Rightarrow> bool" where
  "dict_contains d k = (k \<in> set (map fst d))"

record ClassInfo =
  name :: string
  bases :: "string list"
  methods :: "string list"
  attributes :: "string list"
  method_calls :: "(string \<times> string list) list"
  method_attrs :: "(string \<times> string list) list"
  called_classes :: "string list"
  method_complexity :: "(string \<times> int) list"

definition ClassInfo_init :: "string \<Rightarrow> string list \<Rightarrow> ClassInfo" where
  "ClassInfo_init n bs =
     \<lparr>name = n, bases = bs, methods = [], attributes = [], method_calls = [], method_attrs = [],
      called_classes = [], method_complexity = []\<rparr>"

subsection \<open>The graphs of networkx\<close>

text \<open>
  \<open>nx.DiGraph\<close> and \<open>nx.Graph\<close> are external. A graph is its nodes and its edges, each in
  insertion order and without duplicates. As the library documents, \<open>add_edge(u, v)\<close>
  first adds \<open>u\<close> and \<open>v\<close> as nodes when they are not yet in the graph. A directed graph
  reads an edge \<open>(u, v)\<close> from \<open>u\<close> to \<open>v\<close>; an undirected graph reads it both ways.
\<close>

record nx_graph =
  nodes :: "string list"
  edges :: "(string \<times> string) list"

definition empty_graph :: nx_graph where
  "empty_graph = \<lparr>nodes = [], edges = []\<rparr>"

definition add_node :: "nx_graph \<Rightarrow> string \<Rightarrow> nx_graph" where
  "add_node G n = G\<lparr>nodes := set_add (nodes G) n\<rparr>"

definition add_edge :: "nx_graph \<Rightarrow> string \<Rightarrow> string \<Rightarrow> nx_graph" where
  "add_edge G u v = (let G' = add_node (add_node G u) v in G'\<lparr>edges := set_add (edges G') (u, v)\<rparr>)"

definition has_node :: "nx_graph \<Rightarrow> string \<Rightarrow> bool" where
  "has_node G n = (n \<in> set (nodes G))"

definition in_degree :: "nx_graph \<Rightarrow> string \<Rightarrow> nat" where
  "in_degree G n = length (filter (\<lambda>e. snd e = n) (edges G))"

definition successors :: "nx_graph \<Rightarrow> string \<Rightarrow> string list" where
  "successors G n = map snd (filter (\<lambda>e. fst e = n) (edges G))"

text \<open>
  \<open>nx.all_simple_paths(G, source, target)\<close>: a depth-first search along successors that
  never revisits a node of the current path, stops a path at the target, and is cut off
  at \<open>len(G) - 1\<close> edges. \<open>visited\<close> is the current path. For \<open>source = target\<close> the
  search is not started (recent versions of the library yield the one-node path instead,
  which has no edge).
\<close>

fun simple_paths_dfs :: "nat \<Rightarrow> nx_graph \<Rightarrow> string \<Rightarrow> string list \<Rightarrow> string list list" where
  "simple_paths_dfs 0 G target visited = []"
| "simple_paths_dfs (Suc cutoff) G target visited =
     concat (map (\<lambda>child.
        if child \<in> set visited then []
        else if child = target then [visited @ [child]]
        else simple_paths_dfs cutoff G target (visited @ [child]))
       (successors G (last visited)))"

definition all_simple_paths :: "nx_graph \<Rightarrow> string \<Rightarrow> string \<Rightarrow> string list list" where
  "all_simple_paths G source target =
     (if source = target then [] else simple_paths_dfs (length (nodes G) - 1) G target [source])"

text \<open>
  \<open>nx.number_connected_components(G)\<close> of an undirected graph: the nodes are scanned in
  order, and each node not yet seen starts a breadth-first search that marks its whole
  component as seen. The search is modelled by adding, level by level, the neighbours of
  the nodes reached so far; \<open>len(G)\<close> levels reach every node of the component.
\<close>

definition neighbors :: "nx_graph \<Rightarrow> string \<Rightarrow> string list" where
  "neighbors G v = map snd (filter (\<lambda>e. fst e = v) (edges G)) @ map fst (filter (\<lambda>e. snd e = v) (edges G))"

definition bfs_level :: "nx_graph \<Rightarrow> string set \<Rightarrow> string set" where
  "bfs_level G seen = seen \<union> (\<Union>v\<in>seen. set (neighbors G v))"

definition plain_bfs :: "nx_graph \<Rightarrow> string \<Rightarrow> string set" where
  "plain_bfs G source = (bfs_level G ^^ length (nodes G)) {source}"

fun connected_components :: "nx_graph \<Rightarrow> string list \<Rightarrow> string set \<Rightarrow> string set list" where
  "connected_components G [] seen = []"
| "connected_components G (v # vs) seen =
     (if v \<in> seen then connected_components G vs seen
      else (let c = plain_bfs G v in c # connected_components G vs (seen \<union> c)))"

definition number_connected_components :: "nx_graph \<Rightarrow> nat" where
  "number_connected_components G = length (connected_components G (nodes G) {})"

subsection \<open>CKMetrics: extraction\<close>

record CKMetrics =
  classes :: "(string \<times> ClassInfo) list"
  inheritance_graph :: nx_graph
  file_paths :: "(string \<times> string) list"
  class_filter :: "string list option"

definition CKMetrics_init :: "string list option \<Rightarrow> CKMetrics" where
  "CKMetrics_init cf = \<lparr>classes = [], inheritance_graph = empty_graph, file_paths = [], class_filter = cf\<rparr>"

fun attribute_parts :: "expr \<Rightarrow> string list" where
  "attribute_parts (Attribute v a) = attribute_parts v @ [a]"
| "attribute_parts (Name i) = [i]"
| "attribute_parts e = []"

fun join :: "string \<Rightarrow> string list \<Rightarrow> string" where
  "join sep [] = []"
| "join sep [p] = p"
| "join sep (p # ps) = p @ sep @ join sep ps"

definition get_attribute_name :: "expr \<Rightarrow> string" where
  "get_attribute_name node = join ''.'' (attribute_parts node)"

text \<open>One element of the comprehension that computes \<open>bases\<close>: bases that are neither a
  name nor an attribute are dropped.\<close>

fun base_name :: "expr \<Rightarrow> string option" where
  "base_name (Name i) = Some i"
| "base_name (Attribute v a) = Some (get_attribute_name (Attribute v a))"
| "base_name e = None"

text \<open>The body of the loop over \<open>node.body\<close>.\<close>

definition process_method :: "string \<Rightarrow> stmt \<Rightarrow> ClassInfo \<Rightarrow> ClassInfo" where
  "process_method method_name item class_info =
     (let method_visitor = MethodVisitor_visit item;
          complexity = ComplexityVisitor_complexity item
      in class_info\<lparr>
           methods := set_add (methods class_info) method_name,
           method_calls := dict_set (method_calls class_info) method_name (mv_method_calls method_visitor),
           method_attrs := dict_set (method_attrs class_info) method_name (mv_attributes method_visitor),
           called_classes := set_update (called_classes class_info) (mv_classes method_visitor),
           method_complexity := dict_set (method_complexity class_info) method_name complexity\<rparr>)"

fun assign_target :: "expr \<Rightarrow> ClassInfo \<Rightarrow> ClassInfo" where
  "assign_target (Name i) class_info = class_info\<lparr>attributes := set_add (attributes class_info) i\<rparr>"
| "assign_target (Attribute (Name i) a) class_info =
     (if i = ''self'' then class_info\<lparr>attributes := set_add (attributes class_info) a\<rparr> else class_info)"
| "assign_target target class_info = class_info"

fun process_item :: "stmt \<Rightarrow> ClassInfo \<Rightarrow> ClassInfo" where
  "process_item (FunctionDef n args body decs) class_info =
     process_method n (FunctionDef n args body decs) class_info"
| "process_item (AsyncFunctionDef n args body decs) class_info =
     process_method n (AsyncFunctionDef n args body decs) class_info"
| "process_item (Assign targets v) class_info = fold assign_target targets class_info"
| "process_item (AnnAssign target a v) class_info = assign_target target class_info"
| "process_item item class_info = class_info"

text \<open>The list comprehension that computes \<open>bases\<close>, the loop that adds the inheritance
  relationships to the graph, and the loop over \<open>node.body\<close> that fills the new
  \<open>ClassInfo\<close>.\<close>

definition resolve_bases :: "expr list \<Rightarrow> string list" where
  "resolve_bases node_bases = List.map_filter base_name node_bases"

definition add_inheritance :: "string \<Rightarrow> string list \<Rightarrow> nx_graph \<Rightarrow> nx_graph" where
  "add_inheritance class_name bs G =
     fold (\<lambda>base G. if base \<noteq> ''object'' then add_edge G base class_name else G) bs
       (add_node G class_name)"

definition extract_class :: "string \<Rightarrow> string list \<Rightarrow> stmt list \<Rightarrow> ClassInfo" where
  "extract_class class_name bs body = fold process_item body (ClassInfo_init class_name bs)"

text \<open>The body of the loop of \<open>_process_ast\<close> for one node of the walk. A class is skipped
  when a filter is set and does not list its name.\<close>

definition skipped :: "CKMetrics \<Rightarrow> string \<Rightarrow> bool" where
  "skipped self class_name \<longleftrightarrow>
     (case class_filter self of None \<Rightarrow> False | Some names \<Rightarrow> class_name \<notin> set names)"

fun process_node :: "string \<Rightarrow> stmt \<Rightarrow> CKMetrics \<Rightarrow> CKMetrics" where
  "process_node file_path (ClassDef class_name node_bases kws body decs) self =
     (if skipped self class_name then self
      else
        (let bs = resolve_bases node_bases
         in self\<lparr>file_paths := dict_set (file_paths self) class_name file_path,
                 classes := dict_set (classes self) class_name (extract_class class_name bs body),
                 inheritance_graph := add_inheritance class_name bs (inheritance_graph self)\<rparr>))"
| "process_node file_path node self = self"

text \<open>
  \<open>_process_ast(tree, file_path)\<close>. The traversal \<open>ast.walk\<close> belongs to the standard
  library: the tree is given by the sequence of statement nodes the walk yields.
  \<open>parse_directory\<close> processes the files one after the other; a file is its path and
  that sequence (a file with a syntax error contributes nothing).
\<close>

definition process_ast :: "stmt list \<Rightarrow> string \<Rightarrow> CKMetrics \<Rightarrow> CKMetrics" where
  "process_ast walk file_path self = fold (process_node file_path) walk self"

definition parse_directory :: "(string \<times> stmt list) list \<Rightarrow> CKMetrics \<Rightarrow> CKMetrics" where
  "parse_directory fs self = fold (\<lambda>(file_path, walk). process_ast walk file_path) fs self"

subsection \<open>CKMetrics: the metric calculators\<close>

definition calculate_wmc :: "ClassInfo \<Rightarrow> int" where
  "calculate_wmc class_info =
     sum_list (map (\<lambda>method. dict_get (method_complexity class_info) method 1) (methods class_info))"

text \<open>Python's \<open>max\<close> of a non-empty sequence; \<open>_calculate_dit\<close> calls it under
  \<open>if paths\<close> only.\<close>

fun py_max :: "int list \<Rightarrow> int" where
  "py_max [] = 0"
| "py_max (x # xs) = fold max xs x"

text \<open>The body of the loop of \<open>_calculate_dit\<close> over the roots.\<close>

definition dit_step :: "nx_graph \<Rightarrow> string \<Rightarrow> string \<Rightarrow> int \<Rightarrow> int" where
  "dit_step G class_name rt max_depth =
     (let paths = all_simple_paths G rt class_name
      in if paths \<noteq> [] then max max_depth (py_max (map (\<lambda>path. int (length path) - 1) paths))
         else max_depth)"

definition calculate_dit :: "CKMetrics \<Rightarrow> string \<Rightarrow> int" where
  "calculate_dit self class_name =
     (let G = inheritance_graph self
      in if \<not> has_node G class_name then 0
         else
           (let roots = filter (\<lambda>node. in_degree G node = 0) (nodes G)
            in fold (dit_step G class_name) roots 0))"

definition calculate_noc :: "CKMetrics \<Rightarrow> string \<Rightarrow> int" where
  "calculate_noc self class_name =
     (if \<not> has_node (inheritance_graph self) class_name then 0
      else int (length (successors (inheritance_graph self) class_name)))"

definition calculate_cbo :: "CKMetrics \<Rightarrow> string \<Rightarrow> ClassInfo \<Rightarrow> int" where
  "calculate_cbo self class_name class_info =
     (let coupled0 = remdups (bases class_info @ called_classes class_info);
          coupled1 = fold (\<lambda>(method_name, calls) coupled.
                       fold (\<lambda>called_class coupled.
                          if dict_contains (classes self) called_class \<and> called_class \<noteq> class_name
                          then set_add coupled called_class else coupled) calls coupled)
                       (method_calls class_info) coupled0;
          coupled2 = fold (\<lambda>attr coupled.
                       if dict_contains (classes self) attr \<and> attr \<noteq> class_name
                       then set_add coupled attr else coupled)
                       (attributes class_info) coupled1;
          coupled3 = (if ''object'' \<in> set coupled2 then removeAll ''object'' coupled2 else coupled2);
          coupled4 = (if ''self'' \<in> set coupled3 then removeAll ''self'' coupled3 else coupled3)
      in int (length coupled4))"

text \<open>\<open>__builtins__\<close>, the built-in namespace of the host interpreter, is a parameter.\<close>

definition is_builtin_function :: "string set \<Rightarrow> string \<Rightarrow> bool" where
  "is_builtin_function built_ins method_name =
     (if method_name \<in> {''super'', ''getattr'', ''setattr'', ''delattr'', ''hasattr'', ''type'', ''dir''}
      then False
      else if method_name \<notin> built_ins then False
      else True)"

definition calculate_rfc :: "string set \<Rightarrow> ClassInfo \<Rightarrow> int" where
  "calculate_rfc built_ins class_info =
     (let response_set = fold (\<lambda>(method_name, called_methods) response_set.
            set_update response_set (filter (\<lambda>method. \<not> is_builtin_function built_ins method) called_methods))
            (method_calls class_info) (remdups (methods class_info))
      in int (length response_set))"

text \<open>The graph that \<open>_calculate_lcom4\<close> builds over the methods.\<close>

definition lcom4_graph :: "ClassInfo \<Rightarrow> nx_graph" where
  "lcom4_graph class_info =
     (let graph0 = fold (\<lambda>method graph. add_node graph method) (methods class_info) empty_graph
      in fold (\<lambda>method1 graph.
           (let attrs1 = dict_get (method_attrs class_info) method1 [];
                graph1 = fold (\<lambda>method2 graph.
                           if method1 \<noteq> method2 then
                             (let attrs2 = dict_get (method_attrs class_info) method2 []
                              in if set attrs1 \<inter> set attrs2 \<noteq> {} then add_edge graph method1 method2
                                 else graph)
                           else graph)
                         (methods class_info) graph
            in fold (\<lambda>called graph.
                 if called \<in> set (methods class_info) then add_edge graph method1 called else graph)
                 (dict_get (method_calls class_info) method1 []) graph1))
         (methods class_info) graph0)"

definition calculate_lcom4 :: "ClassInfo \<Rightarrow> int" where
  "calculate_lcom4 class_info =
     (if methods class_info = [] then 0
      else int (number_connected_components (lcom4_graph class_info)))"

definition calculate_normalized_lcom4 :: "ClassInfo \<Rightarrow> int \<Rightarrow> rat" where
  "calculate_normalized_lcom4 class_info lcom4_value =
     (let method_count = int (length (methods class_info))
      in if method_count \<le> 1 then 0
         else of_int (lcom4_value - 1) / of_int (method_count - 1))"

definition calculate_class_metrics :: "string set \<Rightarrow> CKMetrics \<Rightarrow> string \<Rightarrow> ClassInfo \<Rightarrow> ClassMetrics" where
  "calculate_class_metrics built_ins self class_name class_info =
     (let lcom4_value = calculate_lcom4 class_info
      in \<lparr>wmc = calculate_wmc class_info,
          dit = calculate_dit self class_name,
          noc = calculate_noc self class_name,
          cbo = calculate_cbo self class_name class_info,
          rfc = calculate_rfc built_ins class_info,
          lcom4 = lcom4_value,
          lcom4_normalized = calculate_normalized_lcom4 class_info lcom4_value,
          methods_dict = map (\<lambda>method. (method,
             \<lparr>complexity = dict_get (method_complexity class_info) method 1\<rparr>)) (methods class_info)\<rparr>)"

text \<open>The loop of \<open>calculate_metrics\<close> over \<open>self.classes.items()\<close>.\<close>

definition add_class_result :: "string set \<Rightarrow> CKMetrics \<Rightarrow> string \<times> ClassInfo \<Rightarrow> ProjectMetrics \<Rightarrow> ProjectMetrics" where
  "add_class_result built_ins self item result =
     (let class_name = fst item;
          class_metrics = calculate_class_metrics built_ins self class_name (snd item);
          file_path = dict_get (file_paths self) class_name ''unknown'';
          files0 = (if \<not> dict_contains (files result) file_path
                    then dict_set (files result) file_path \<lparr>file_classes = [], path = file_path\<rparr>
                    else files result);
          fm = dict_get files0 file_path \<lparr>file_classes = [], path = file_path\<rparr>
      in \<lparr>files = dict_set files0 file_path (fm\<lparr>file_classes := dict_set (file_classes fm) class_name class_metrics\<rparr>),
          class_summary = dict_set (class_summary result) class_name class_metrics\<rparr>)"

definition calculate_metrics :: "string set \<Rightarrow> CKMetrics \<Rightarrow> ProjectMetrics" where
  "calculate_metrics built_ins self =
     fold (add_class_result built_ins self) (classes self) \<lparr>files = [], class_summary = []\<rparr>"

section \<open>combine.py\<close>

record CombinedClassMetrics =
  c_wmc :: rat
  c_dit :: rat
  c_noc :: rat
  c_cbo :: rat
  c_rfc :: rat
  c_lcom4 :: rat
  c_lcom4_normalized :: rat

record CombinedProjectMetrics =
  original_metrics :: "(string \<times> CombinedClassMetrics) list"
  weighted_metrics :: "(string \<times> CombinedClassMetrics) list"
  weighted_metrics_combined :: CombinedClassMetrics
  mean_metrics :: CombinedClassMetrics
  median_metrics :: CombinedClassMetrics

text \<open>The seven keys \<open>"wmc"\<close>, ..., \<open>"lcom4_normalized"\<close> of a metrics dict.\<close>

datatype metric = WMC | DIT | NOC | CBO | RFC | LCOM4 | LCOM4_normalized

definition ck_metrics :: "metric list" where
  "ck_metrics = [WMC, DIT, NOC, CBO, RFC, LCOM4, LCOM4_normalized]"

text \<open>\<open>class_data[metric]\<close> for a per-class record of ck\_metrics.py.\<close>

fun getitem :: "ClassMetrics \<Rightarrow> metric \<Rightarrow> rat" where
  "getitem cd WMC = of_int (wmc cd)"
| "getitem cd DIT = of_int (dit cd)"
| "getitem cd NOC = of_int (noc cd)"
| "getitem cd CBO = of_int (cbo cd)"
| "getitem cd RFC = of_int (rfc cd)"
| "getitem cd LCOM4 = of_int (lcom4 cd)"
| "getitem cd LCOM4_normalized = lcom4_normalized cd"

text \<open>\<open>metrics[metric]\<close> for a combined record.\<close>

fun c_getitem :: "CombinedClassMetrics \<Rightarrow> metric \<Rightarrow> rat" where
  "c_getitem cm WMC = c_wmc cm"
| "c_getitem cm DIT = c_dit cm"
| "c_getitem cm NOC = c_noc cm"
| "c_getitem cm CBO = c_cbo cm"
| "c_getitem cm RFC = c_rfc cm"
| "c_getitem cm LCOM4 = c_lcom4 cm"
| "c_getitem cm LCOM4_normalized = c_lcom4_normalized cm"

text \<open>Python's \<open>/\<close>: raises on a zero divisor.\<close>

definition true_div :: "rat \<Rightarrow> rat \<Rightarrow> error + rat" where
  "true_div a b = (if b = 0 then Inl ZeroDivisionError else Inr (a / b))"

text \<open>\<open>metric_sums[metric]\<close>: the sum of the metric over \<open>class_metrics.values()\<close>.\<close>

definition metric_sums :: "(string \<times> ClassMetrics) list \<Rightarrow> metric \<Rightarrow> rat" where
  "metric_sums class_metrics m = sum_list (map (\<lambda>class_data. getitem class_data m) (dict_values class_metrics))"

text \<open>The loop over \<open>other_metrics\<close> of \<open>combine_metrics\<close>, with its two accumulators
  \<open>weight_sum\<close> and \<open>valid_metrics_count\<close>.\<close>

fun weight_loop ::
  "(metric \<Rightarrow> rat) \<Rightarrow> ClassMetrics \<Rightarrow> metric list \<Rightarrow> rat \<Rightarrow> nat \<Rightarrow> error + (rat \<times> nat)" where
  "weight_loop totals class_data [] weight_sum valid_metrics_count = Inr (weight_sum, valid_metrics_count)"
| "weight_loop totals class_data (other_metric # rest) weight_sum valid_metrics_count =
     (if totals other_metric = 0 then weight_loop totals class_data rest weight_sum valid_metrics_count
      else and_then (true_div (getitem class_data other_metric) (totals other_metric))
             (\<lambda>ratio. weight_loop totals class_data rest (weight_sum + ratio) (valid_metrics_count + 1)))"

text \<open>The body of the loop over \<open>target_metric\<close>: the value stored in
  \<open>weighted_class_metrics[target_metric]\<close>.\<close>

definition weighted_value :: "(metric \<Rightarrow> rat) \<Rightarrow> ClassMetrics \<Rightarrow> metric \<Rightarrow> error + rat" where
  "weighted_value totals class_data target_metric =
     (let original_value = getitem class_data target_metric;
          other_metrics = filter (\<lambda>m. m \<noteq> target_metric) ck_metrics
      in and_then (weight_loop totals class_data other_metrics 0 0) (\<lambda>(weight_sum, valid_metrics_count).
         and_then (if valid_metrics_count > 0 then true_div weight_sum (of_nat valid_metrics_count) else Inr 1)
           (\<lambda>avg_weight. Inr (original_value * avg_weight))))"

definition weighted_class :: "(metric \<Rightarrow> rat) \<Rightarrow> ClassMetrics \<Rightarrow> error + CombinedClassMetrics" where
  "weighted_class totals class_data =
     and_then (weighted_value totals class_data WMC) (\<lambda>w.
     and_then (weighted_value totals class_data DIT) (\<lambda>d.
     and_then (weighted_value totals class_data NOC) (\<lambda>n.
     and_then (weighted_value totals class_data CBO) (\<lambda>c.
     and_then (weighted_value totals class_data RFC) (\<lambda>r.
     and_then (weighted_value totals class_data LCOM4) (\<lambda>l.
     and_then (weighted_value totals class_data LCOM4_normalized) (\<lambda>ln.
       Inr \<lparr>c_wmc = w, c_dit = d, c_noc = n, c_cbo = c, c_rfc = r, c_lcom4 = l,
            c_lcom4_normalized = ln\<rparr>)))))))"

text \<open>The loop over \<open>class_metrics.items()\<close>, filling \<open>weighted_metrics\<close>.\<close>

fun combine_loop ::
  "(metric \<Rightarrow> rat) \<Rightarrow> (string \<times> ClassMetrics) list \<Rightarrow> (string \<times> CombinedClassMetrics) list
     \<Rightarrow> error + (string \<times> CombinedClassMetrics) list" where
  "combine_loop totals [] weighted = Inr weighted"
| "combine_loop totals ((class_name, class_data) # rest) weighted =
     and_then (weighted_class totals class_data)
       (\<lambda>wc. combine_loop totals rest (dict_set weighted class_name wc))"

definition combine_metrics :: "ProjectMetrics \<Rightarrow> error + (string \<times> CombinedClassMetrics) list" where
  "combine_metrics project_metrics =
     (let class_metrics = class_summary project_metrics
      in combine_loop (metric_sums class_metrics) class_metrics [])"

text \<open>\<open>statistics.mean\<close> and \<open>statistics.median\<close> of the standard library: both raise
  \<open>StatisticsError\<close> on empty data.\<close>

definition mean :: "rat list \<Rightarrow> error + rat" where
  "mean data = (if length data < 1 then Inl StatisticsError
                else Inr (sum_list data / of_nat (length data)))"

definition median :: "rat list \<Rightarrow> error + rat" where
  "median data0 =
     (let data = sort data0; n = length data
      in if n = 0 then Inl StatisticsError
         else if n mod 2 = 1 then Inr (data ! (n div 2))
         else (let i = n div 2 in Inr ((data ! (i - 1) + data ! i) / 2)))"

text \<open>The seven value vlists collected by the loops of the three summary functions.\<close>

definition values_of :: "(string \<times> ClassMetrics) list \<Rightarrow> metric \<Rightarrow> rat list" where
  "values_of class_metrics m = map (\<lambda>class_data. getitem class_data m) (dict_values class_metrics)"

definition summarise :: "(rat list \<Rightarrow> error + rat) \<Rightarrow> (metric \<Rightarrow> rat list) \<Rightarrow> error + CombinedClassMetrics" where
  "summarise stat vals =
     and_then (stat (vals WMC)) (\<lambda>w.
     and_then (stat (vals DIT)) (\<lambda>d.
     and_then (stat (vals NOC)) (\<lambda>n.
     and_then (stat (vals CBO)) (\<lambda>c.
     and_then (stat (vals RFC)) (\<lambda>r.
     and_then (stat (vals LCOM4)) (\<lambda>l.
     and_then (stat (vals LCOM4_normalized)) (\<lambda>ln.
       Inr \<lparr>c_wmc = w, c_dit = d, c_noc = n, c_cbo = c, c_rfc = r, c_lcom4 = l,
            c_lcom4_normalized = ln\<rparr>)))))))"

definition calculate_mean_metrics :: "ProjectMetrics \<Rightarrow> error + CombinedClassMetrics" where
  "calculate_mean_metrics project_metrics = summarise mean (values_of (class_summary project_metrics))"

definition calculate_median_metrics :: "ProjectMetrics \<Rightarrow> error + CombinedClassMetrics" where
  "calculate_median_metrics project_metrics = summarise median (values_of (class_summary project_metrics))"

text \<open>\<open>calculate_weighted_metrics_combined\<close>: the loop appends each class's weighted
  value to one list per metric; the result is built from Python's \<open>sum\<close> of each list.\<close>

fun collect_weighted :: "(string \<times> CombinedClassMetrics) list \<Rightarrow> (metric \<Rightarrow> rat list) \<Rightarrow> metric \<Rightarrow> rat list" where
  "collect_weighted [] vlists = vlists"
| "collect_weighted ((class_name, metrics) # rest) vlists =
     collect_weighted rest (\<lambda>m. vlists m @ [c_getitem metrics m])"

definition calculate_weighted_metrics_combined ::
  "(string \<times> CombinedClassMetrics) list \<Rightarrow> CombinedClassMetrics" where
  "calculate_weighted_metrics_combined weighted =
     (let vlists = collect_weighted weighted (\<lambda>m. [])
      in \<lparr>c_wmc = sum_list (vlists WMC), c_dit = sum_list (vlists DIT), c_noc = sum_list (vlists NOC),
          c_cbo = sum_list (vlists CBO), c_rfc = sum_list (vlists RFC), c_lcom4 = sum_list (vlists LCOM4),
          c_lcom4_normalized = sum_list (vlists LCOM4_normalized)\<rparr>)"

definition to_combined :: "ClassMetrics \<Rightarrow> CombinedClassMetrics" where
  "to_combined v = \<lparr>c_wmc = of_int (wmc v), c_dit = of_int (dit v), c_noc = of_int (noc v),
     c_cbo = of_int (cbo v), c_rfc = of_int (rfc v), c_lcom4 = of_int (lcom4 v),
     c_lcom4_normalized = lcom4_normalized v\<rparr>"

definition get_aggregated_metrics :: "ProjectMetrics \<Rightarrow> error + CombinedProjectMetrics" where
  "get_aggregated_metrics project_metrics =
     and_then (combine_metrics project_metrics) (\<lambda>weighted.
     and_then (calculate_mean_metrics project_metrics) (\<lambda>mean_m.
     and_then (calculate_median_metrics project_metrics) (\<lambda>median_m.
       Inr \<lparr>original_metrics = map (\<lambda>(k, v). (k, to_combined v)) (class_summary project_metrics),
            weighted_metrics = weighted,
            weighted_metrics_combined = calculate_weighted_metrics_combined weighted,
            mean_metrics = mean_m,
            median_metrics = median_m\<rparr>)))"

section \<open>Reference definitions and example inputs\<close>

text \<open>
  The weight of the specification: the mean, over the metrics other than the target whose
  project-wide sum is not 0, of the class's share of that sum; 1 when there is none.
\<close>

definition spec_weight :: "(string \<times> ClassMetrics) list \<Rightarrow> ClassMetrics \<Rightarrow> metric \<Rightarrow> rat" where
  "spec_weight class_metrics cd M =
     (let valid = filter (\<lambda>m. m \<noteq> M \<and> metric_sums class_metrics m \<noteq> 0) ck_metrics
      in if valid = [] then 1
         else sum_list (map (\<lambda>m. getitem cd m / metric_sums class_metrics m) valid) / of_nat (length valid))"

definition spec_weighted_class :: "(string \<times> ClassMetrics) list \<Rightarrow> ClassMetrics \<Rightarrow> CombinedClassMetrics" where
  "spec_weighted_class cs cd =
     \<lparr>c_wmc = getitem cd WMC * spec_weight cs cd WMC,
      c_dit = getitem cd DIT * spec_weight cs cd DIT,
      c_noc = getitem cd NOC * spec_weight cs cd NOC,
      c_cbo = getitem cd CBO * spec_weight cs cd CBO,
      c_rfc = getitem cd RFC * spec_weight cs cd RFC,
      c_lcom4 = getitem cd LCOM4 * spec_weight cs cd LCOM4,
      c_lcom4_normalized = getitem cd LCOM4_normalized * spec_weight cs cd LCOM4_normalized\<rparr>"

text \<open>The metrics of a class without methods, bases or attributes.\<close>

definition empty_class :: ClassMetrics where
  "empty_class = \<lparr>wmc = 0, dit = 0, noc = 0, cbo = 0, rfc = 0, lcom4 = 0, lcom4_normalized = 0, methods_dict = []\<rparr>"

text \<open>
  \<^verbatim>\<open>def f(self, x, y):\<close>
  \<^verbatim>\<open>    if x > 0 and y > 0: return 1\<close>
  \<^verbatim>\<open>    return 0\<close>
\<close>

definition example_method :: stmt where
  "example_method =
     FunctionDef ''f'' []
       [If (BoolOp And [OtherExpr [Name ''x'', OtherExpr []], OtherExpr [Name ''y'', OtherExpr []]])
           [Return (Some (OtherExpr []))] [],
        Return (Some (OtherExpr []))] []"

text \<open>A project of two classes, \<open>Parent\<close> and \<open>Child(Parent)\<close>, and a project without classes.\<close>

definition parent_metrics :: ClassMetrics where
  "parent_metrics = \<lparr>wmc = 2, dit = 0, noc = 1, cbo = 0, rfc = 2, lcom4 = 1, lcom4_normalized = 0,
     methods_dict = [(''run'', \<lparr>complexity = 2\<rparr>)]\<rparr>"

definition child_metrics :: ClassMetrics where
  "child_metrics = \<lparr>wmc = 2, dit = 1, noc = 0, cbo = 1, rfc = 2, lcom4 = 1, lcom4_normalized = 0,
     methods_dict = [(''stop'', \<lparr>complexity = 2\<rparr>)]\<rparr>"

definition example_project :: ProjectMetrics where
  "example_project = \<lparr>files = [], class_summary = [(''Parent'', parent_metrics), (''Child'', child_metrics)]\<rparr>"

definition zero_class_project :: ProjectMetrics where
  "zero_class_project = \<lparr>files = [], class_summary = []\<rparr>"

definition two_empty_classes :: ProjectMetrics where
  "two_empty_classes = \<lparr>files = [], class_summary = [(''A'', empty_class), (''B'', empty_class)]\<rparr>"

text \<open>
  Paths of the inheritance graph: a simple path is a non-empty sequence of distinct nodes
  with an edge from each node to the next; a root is a node without incoming edge; a root
  path of a class is a simple path from a root to the class. Its length in edges is its
  number of nodes minus one.
\<close>

definition edge :: "nx_graph \<Rightarrow> string \<Rightarrow> string \<Rightarrow> bool" where
  "edge G u v \<longleftrightarrow> (u, v) \<in> set (edges G)"

definition simple_path :: "nx_graph \<Rightarrow> string list \<Rightarrow> bool" where
  "simple_path G p \<longleftrightarrow> p \<noteq> [] \<and> distinct p \<and> successively (edge G) p"

definition is_root :: "nx_graph \<Rightarrow> string \<Rightarrow> bool" where
  "is_root G r \<longleftrightarrow> r \<in> set (nodes G) \<and> r \<notin> snd ` set (edges G)"

definition root_path :: "nx_graph \<Rightarrow> string \<Rightarrow> string list \<Rightarrow> bool" where
  "root_path G c p \<longleftrightarrow> simple_path G p \<and> is_root G (hd p) \<and> last p = c"

text \<open>The endpoints of every edge are nodes, as \<open>add_edge\<close> ensures.\<close>

definition wf_graph :: "nx_graph \<Rightarrow> bool" where
  "wf_graph G \<longleftrightarrow> fst ` set (edges G) \<subseteq> set (nodes G) \<and> snd ` set (edges G) \<subseteq> set (nodes G)"

text \<open>A node of the walk that is not a declaration of class \<open>c\<close> with a base other than
  \<open>object\<close>.\<close>

fun declares_no_base :: "string \<Rightarrow> stmt \<Rightarrow> bool" where
  "declares_no_base c (ClassDef n node_bases kws body decs) =
     (n \<noteq> c \<or> set (resolve_bases node_bases) \<subseteq> {''object''})"
| "declares_no_base c node = True"

text \<open>What extraction maintains: the endpoints of the edges are nodes, the class table has
  one record per name (and so has the index of file paths), every discovered class is a node, and every base of a record other
  than \<open>object\<close> has an edge to the class.\<close>

definition ck_inv :: "CKMetrics \<Rightarrow> bool" where
  "ck_inv self \<longleftrightarrow>
     wf_graph (inheritance_graph self) \<and>
     distinct (map fst (classes self)) \<and>
     distinct (map fst (file_paths self)) \<and>
     (\<forall>n ci. (n, ci) \<in> set (classes self) \<longrightarrow>
        n \<in> set (nodes (inheritance_graph self)) \<and>
        (\<forall>b. b \<in> set (bases ci) \<and> b \<noteq> ''object'' \<longrightarrow> edge (inheritance_graph self) b n))"

text \<open>
  Example sources. \<^verbatim>\<open>class B(External): pass\<close> in one file; and
  \<^verbatim>\<open>class Parent: pass\<close>, \<^verbatim>\<open>class Child(Parent): pass\<close> in another.
\<close>

definition external_base_file :: "stmt list" where
  "external_base_file = [ClassDef ''B'' [Name ''External''] [] [OtherStmt []] []]"

definition external_base_state :: CKMetrics where
  "external_base_state = parse_directory [(''b.py'', external_base_file)] (CKMetrics_init None)"

definition family_file :: "stmt list" where
  "family_file =
     [ClassDef ''Parent'' [] [] [OtherStmt []] [],
      ClassDef ''Child'' [Name ''Parent''] [] [OtherStmt []] []]"

definition family_state :: CKMetrics where
  "family_state = parse_directory [(''family.py'', family_file)] (CKMetrics_init None)"

text \<open>The nodes that \<open>parse_directory\<close> processes, in order, each with the path of its file;
  and whether a node declares a class of a given name.\<close>

definition walk_items :: "(string \<times> stmt list) list \<Rightarrow> (string \<times> stmt) list" where
  "walk_items fs = concat (map (\<lambda>(file_path, walk). map (Pair file_path) walk) fs)"

definition process_nodes :: "(string \<times> stmt) list \<Rightarrow> CKMetrics \<Rightarrow> CKMetrics" where
  "process_nodes items self = fold (\<lambda>(file_path, node). process_node file_path node) items self"

fun declares :: "string \<Rightarrow> stmt \<Rightarrow> bool" where
  "declares c (ClassDef n node_bases kws body decs) = (n = c)"
| "declares c node = False"

text \<open>
  Two files that both declare \<open>A\<close>: \<^verbatim>\<open>class R: pass\<close>, \<^verbatim>\<open>class B(R): pass\<close>,
  \<^verbatim>\<open>class A(B): pass\<close>, \<^verbatim>\<open>class C(B): pass\<close> in the first, \<^verbatim>\<open>class A: pass\<close> in
  the second.
\<close>

definition duplicate_files :: "(string \<times> stmt list) list" where
  "duplicate_files =
     [(''one.py'', [ClassDef ''R'' [] [] [OtherStmt []] [], ClassDef ''B'' [Name ''R''] [] [OtherStmt []] [],
                  ClassDef ''A'' [Name ''B''] [] [OtherStmt []] [],
                  ClassDef ''C'' [Name ''B''] [] [OtherStmt []] []]),
      (''two.py'', [ClassDef ''A'' [] [] [OtherStmt []] []])]"

definition duplicate_state :: CKMetrics where
  "duplicate_state = parse_directory duplicate_files (CKMetrics_init None)"

text \<open>
  Trees as the parser yields them: a boolean operation has at least two operands (the
  grammar of Python has no other).
\<close>

fun wf_expr :: "expr \<Rightarrow> bool"
  and wf_comprehension :: "comprehension \<Rightarrow> bool" where
  "wf_expr (Name i) = True"
| "wf_expr (Attribute v a) = wf_expr v"
| "wf_expr (Call f args kws) = (wf_expr f \<and> list_all wf_expr args \<and> list_all wf_expr kws)"
| "wf_expr (BoolOp op vals) = (2 \<le> length vals \<and> list_all wf_expr vals)"
| "wf_expr (IfExp t b e) = (wf_expr t \<and> wf_expr b \<and> wf_expr e)"
| "wf_expr (Lambda args b) = (list_all wf_expr args \<and> wf_expr b)"
| "wf_expr (NamedExpr t v) = (wf_expr t \<and> wf_expr v)"
| "wf_expr (ListComp elt gens) = (wf_expr elt \<and> list_all wf_comprehension gens)"
| "wf_expr (SetComp elt gens) = (wf_expr elt \<and> list_all wf_comprehension gens)"
| "wf_expr (DictComp k v gens) = (wf_expr k \<and> wf_expr v \<and> list_all wf_comprehension gens)"
| "wf_expr (GeneratorExp elt gens) = (wf_expr elt \<and> list_all wf_comprehension gens)"
| "wf_expr (Yield v) = (case v of None \<Rightarrow> True | Some e \<Rightarrow> wf_expr e)"
| "wf_expr (YieldFrom v) = wf_expr v"
| "wf_expr (OtherExpr es) = list_all wf_expr es"
| "wf_comprehension (Comprehension t i ifs) = (wf_expr t \<and> wf_expr i \<and> list_all wf_expr ifs)"

definition wf_opt :: "expr option \<Rightarrow> bool" where
  "wf_opt node = (case node of None \<Rightarrow> True | Some e \<Rightarrow> wf_expr e)"

definition wf_withitem :: "expr \<times> expr option \<Rightarrow> bool" where
  "wf_withitem item = (wf_expr (fst item) \<and> wf_opt (snd item))"

fun wf_stmt :: "stmt \<Rightarrow> bool"
  and wf_handler :: "excepthandler \<Rightarrow> bool"
  and wf_case :: "match_case \<Rightarrow> bool" where
  "wf_stmt (FunctionDef n args body decs) = (list_all wf_expr args \<and> list_all wf_stmt body \<and> list_all wf_expr decs)"
| "wf_stmt (AsyncFunctionDef n args body decs) = (list_all wf_expr args \<and> list_all wf_stmt body \<and> list_all wf_expr decs)"
| "wf_stmt (ClassDef n bs kws body decs) =
     (list_all wf_expr bs \<and> list_all wf_expr kws \<and> list_all wf_stmt body \<and> list_all wf_expr decs)"
| "wf_stmt (Return v) = wf_opt v"
| "wf_stmt (Assign targets v) = (list_all wf_expr targets \<and> wf_expr v)"
| "wf_stmt (AnnAssign t a v) = (wf_expr t \<and> wf_expr a \<and> wf_opt v)"
| "wf_stmt (For t i body orelse) = (wf_expr t \<and> wf_expr i \<and> list_all wf_stmt body \<and> list_all wf_stmt orelse)"
| "wf_stmt (AsyncFor t i body orelse) = (wf_expr t \<and> wf_expr i \<and> list_all wf_stmt body \<and> list_all wf_stmt orelse)"
| "wf_stmt (While t body orelse) = (wf_expr t \<and> list_all wf_stmt body \<and> list_all wf_stmt orelse)"
| "wf_stmt (If t body orelse) = (wf_expr t \<and> list_all wf_stmt body \<and> list_all wf_stmt orelse)"
| "wf_stmt (With items body) = (list_all wf_withitem items \<and> list_all wf_stmt body)"
| "wf_stmt (AsyncWith items body) = (list_all wf_withitem items \<and> list_all wf_stmt body)"
| "wf_stmt (Match subject cases) = (wf_expr subject \<and> list_all wf_case cases)"
| "wf_stmt (Raise e cause) = (wf_opt e \<and> wf_opt cause)"
| "wf_stmt (Try body handlers orelse finalbody) =
     (list_all wf_stmt body \<and> list_all wf_handler handlers \<and> list_all wf_stmt orelse \<and> list_all wf_stmt finalbody)"
| "wf_stmt (Assert t msg) = (wf_expr t \<and> wf_opt msg)"
| "wf_stmt (OtherStmt es) = list_all wf_expr es"
| "wf_handler (ExceptHandler t body) = (wf_opt t \<and> list_all wf_stmt body)"
| "wf_case (MatchCase pattern guard body) = (list_all wf_expr pattern \<and> wf_opt guard \<and> list_all wf_stmt body)"

text \<open>What extraction maintains for a record built from such trees: the methods are listed
  once each, and each has a recorded complexity, which is at least 1.\<close>

definition class_ok :: "ClassInfo \<Rightarrow> bool" where
  "class_ok ci \<longleftrightarrow>
     distinct (methods ci) \<and>
     (\<forall>m. m \<in> set (methods ci) \<longrightarrow> (\<exists>c. map_of (method_complexity ci) m = Some c \<and> 1 \<le> c))"

text \<open>\<^verbatim>\<open>class Checker:\<close> with the example method \<open>f\<close> and a method \<^verbatim>\<open>def g(self): pass\<close>.\<close>

definition checker_file :: "stmt list" where
  "checker_file = [ClassDef ''Checker'' [] [] [example_method, FunctionDef ''g'' [] [OtherStmt []] []] []]"

definition checker_state :: CKMetrics where
  "checker_state = parse_directory [(''checker.py'', checker_file)] (CKMetrics_init None)"

definition checker_info :: ClassInfo where
  "checker_info =
     \<lparr>name = ''Checker'', bases = [], methods = [''f'', ''g''], attributes = [],
      method_calls = [(''f'', []), (''g'', [])], method_attrs = [(''f'', []), (''g'', [])],
      called_classes = [], method_complexity = [(''f'', 3), (''g'', 1)]\<rparr>"

text \<open>
  A class that calls a method on its own name:

  \<^verbatim>\<open>class Registry:\<close>

  \<^verbatim>\<open>    def create(self):\<close>

  \<^verbatim>\<open>        return Registry.build()\<close>
\<close>

definition registry_file :: "stmt list" where
  "registry_file =
     [ClassDef ''Registry'' [] []
        [FunctionDef ''create'' []
           [Return (Some (Call (Attribute (Name ''Registry'') ''build'') [] []))] []] []]"

definition registry_state :: CKMetrics where
  "registry_state = parse_directory [(''registry.py'', registry_file)] (CKMetrics_init None)"

definition registry_info :: ClassInfo where
  "registry_info =
     \<lparr>name = ''Registry'', bases = [], methods = [''create''], attributes = [],
      method_calls = [(''create'', [''build''])], method_attrs = [(''create'', [])],
      called_classes = [''Registry''], method_complexity = [(''create'', 1)]\<rparr>"

text \<open>The set that the description of CBO names: the declared bases, the receivers of
  qualified calls, the called names and the attribute names that coincide with another
  discovered class, without \<open>object\<close> and \<open>self\<close>.\<close>

definition coincides :: "CKMetrics \<Rightarrow> string \<Rightarrow> string \<Rightarrow> bool" where
  "coincides self class_name x \<longleftrightarrow> dict_contains (classes self) x \<and> x \<noteq> class_name"

definition coupled_set :: "CKMetrics \<Rightarrow> string \<Rightarrow> ClassInfo \<Rightarrow> string set" where
  "coupled_set self class_name class_info =
     (set (bases class_info) \<union> set (called_classes class_info) \<union>
      {c \<in> \<Union> (set ` snd ` set (method_calls class_info)). coincides self class_name c} \<union>
      {a \<in> set (attributes class_info). coincides self class_name a}) - {''object'', ''self''}"

text \<open>
  Connected components of an undirected graph: two nodes are adjacent when an edge joins
  them in either direction, and the component of a node is what a chain of adjacent nodes
  reaches from it.
\<close>

definition adjacent :: "nx_graph \<Rightarrow> (string \<times> string) set" where
  "adjacent G = {(u, v). (u, v) \<in> set (edges G) \<or> (v, u) \<in> set (edges G)}"

definition component_of :: "nx_graph \<Rightarrow> string \<Rightarrow> string set" where
  "component_of G v = (adjacent G)\<^sup>* `` {v}"

text \<open>
  The graph that the description of LCOM4 names, over the methods of a class: two distinct
  methods are related when their sets of self-qualified attributes intersect or one calls
  the other; the components are the classes of methods that chains of related methods join.
\<close>

definition shares_attribute :: "ClassInfo \<Rightarrow> string \<Rightarrow> string \<Rightarrow> bool" where
  "shares_attribute ci m1 m2 \<longleftrightarrow>
     set (dict_get (method_attrs ci) m1 []) \<inter> set (dict_get (method_attrs ci) m2 []) \<noteq> {}"

definition calls_method :: "ClassInfo \<Rightarrow> string \<Rightarrow> string \<Rightarrow> bool" where
  "calls_method ci m1 m2 \<longleftrightarrow> m2 \<in> set (dict_get (method_calls ci) m1 [])"

definition related :: "ClassInfo \<Rightarrow> (string \<times> string) set" where
  "related ci =
     {(m1, m2). m1 \<in> set (methods ci) \<and> m2 \<in> set (methods ci) \<and> m1 \<noteq> m2 \<and>
        (shares_attribute ci m1 m2 \<or> calls_method ci m1 m2 \<or> calls_method ci m2 m1)}"

definition spec_components :: "ClassInfo \<Rightarrow> string set set" where
  "spec_components ci = (\<lambda>m. (related ci)\<^sup>* `` {m}) ` set (methods ci)"

text \<open>The body of the outer loop of \<open>_calculate_lcom4\<close> for one method, the two tests of
  the loop over \<open>method2\<close> written as one condition.\<close>

definition lcom4_step :: "ClassInfo \<Rightarrow> string \<Rightarrow> nx_graph \<Rightarrow> nx_graph" where
  "lcom4_step ci m1 g =
     fold (\<lambda>x g. if x \<in> set (methods ci) then add_edge g m1 x else g)
       (dict_get (method_calls ci) m1 [])
       (fold (\<lambda>x g. if m1 \<noteq> x \<and> shares_attribute ci m1 x then add_edge g m1 x else g) (methods ci) g)"

text \<open>
  A class with two methods that use \<open>self.balance\<close>, a method \<open>describe\<close>, and a method
  \<open>audit\<close> that calls \<open>self.describe()\<close>:

  \<^verbatim>\<open>class Account:\<close>

  \<^verbatim>\<open>    def deposit(self, amount): self.balance += amount\<close>

  \<^verbatim>\<open>    def withdraw(self, amount): self.balance -= amount\<close>

  \<^verbatim>\<open>    def describe(self): pass\<close>

  \<^verbatim>\<open>    def audit(self): self.describe()\<close>
\<close>

definition account_file :: "stmt list" where
  "account_file =
     [ClassDef ''Account'' [] []
        [FunctionDef ''deposit'' [] [OtherStmt [Attribute (Name ''self'') ''balance'', Name ''amount'']] [],
         FunctionDef ''withdraw'' [] [OtherStmt [Attribute (Name ''self'') ''balance'', Name ''amount'']] [],
         FunctionDef ''describe'' [] [OtherStmt []] [],
         FunctionDef ''audit'' [] [OtherStmt [Call (Attribute (Name ''self'') ''describe'') [] []]] []] []]"

definition account_state :: CKMetrics where
  "account_state = parse_directory [(''account.py'', account_file)] (CKMetrics_init None)"

definition account_info :: ClassInfo where
  "account_info =
     \<lparr>name = ''Account'', bases = [],
      methods = [''deposit'', ''withdraw'', ''describe'', ''audit''], attributes = [],
      method_calls = [(''deposit'', []), (''withdraw'', []), (''describe'', []), (''audit'', [''describe''])],
      method_attrs = [(''deposit'', [''balance'']), (''withdraw'', [''balance'']), (''describe'', []),
                      (''audit'', [''describe''])],
      called_classes = [''self''],
      method_complexity = [(''deposit'', 1), (''withdraw'', 1), (''describe'', 1), (''audit'', 1)]\<rparr>"

text \<open>
  The nodes of a tree: every expression, comprehension clause, statement, exception handler
  and \<open>case\<close> arm nested in it, the node itself first. The visitors reach a node through
  \<open>generic_visit\<close>; here the nodes are listed from the tree alone.
\<close>

datatype ast_node =
    ExprNode expr
  | ComprehensionNode comprehension
  | StmtNode stmt
  | HandlerNode excepthandler
  | CaseNode match_case

fun walk_expr :: "expr \<Rightarrow> ast_node list"
  and walk_comprehension :: "comprehension \<Rightarrow> ast_node list" where
  "walk_expr (Name i) = [ExprNode (Name i)]"
| "walk_expr (Attribute v a) = ExprNode (Attribute v a) # walk_expr v"
| "walk_expr (Call f args kws) =
     ExprNode (Call f args kws) # walk_expr f @ concat (map walk_expr args) @ concat (map walk_expr kws)"
| "walk_expr (BoolOp op vals) = ExprNode (BoolOp op vals) # concat (map walk_expr vals)"
| "walk_expr (IfExp t b e) = ExprNode (IfExp t b e) # walk_expr t @ walk_expr b @ walk_expr e"
| "walk_expr (Lambda args b) = ExprNode (Lambda args b) # concat (map walk_expr args) @ walk_expr b"
| "walk_expr (NamedExpr t v) = ExprNode (NamedExpr t v) # walk_expr t @ walk_expr v"
| "walk_expr (ListComp elt gens) =
     ExprNode (ListComp elt gens) # walk_expr elt @ concat (map walk_comprehension gens)"
| "walk_expr (SetComp elt gens) =
     ExprNode (SetComp elt gens) # walk_expr elt @ concat (map walk_comprehension gens)"
| "walk_expr (DictComp k v gens) =
     ExprNode (DictComp k v gens) # walk_expr k @ walk_expr v @ concat (map walk_comprehension gens)"
| "walk_expr (GeneratorExp elt gens) =
     ExprNode (GeneratorExp elt gens) # walk_expr elt @ concat (map walk_comprehension gens)"
| "walk_expr (Yield v) = ExprNode (Yield v) # (case v of None \<Rightarrow> [] | Some e \<Rightarrow> walk_expr e)"
| "walk_expr (YieldFrom v) = ExprNode (YieldFrom v) # walk_expr v"
| "walk_expr (OtherExpr es) = ExprNode (OtherExpr es) # concat (map walk_expr es)"
| "walk_comprehension (Comprehension t i ifs) =
     ComprehensionNode (Comprehension t i ifs) # walk_expr t @ walk_expr i @ concat (map walk_expr ifs)"

definition walk_opt :: "expr option \<Rightarrow> ast_node list" where
  "walk_opt v = (case v of None \<Rightarrow> [] | Some e \<Rightarrow> walk_expr e)"

definition walk_withitem :: "expr \<times> expr option \<Rightarrow> ast_node list" where
  "walk_withitem item = walk_expr (fst item) @ walk_opt (snd item)"

fun walk_stmt :: "stmt \<Rightarrow> ast_node list"
  and walk_handler :: "excepthandler \<Rightarrow> ast_node list"
  and walk_case :: "match_case \<Rightarrow> ast_node list" where
  "walk_stmt (FunctionDef n args body decs) =
     StmtNode (FunctionDef n args body decs) #
       concat (map walk_expr args) @ concat (map walk_stmt body) @ concat (map walk_expr decs)"
| "walk_stmt (AsyncFunctionDef n args body decs) =
     StmtNode (AsyncFunctionDef n args body decs) #
       concat (map walk_expr args) @ concat (map walk_stmt body) @ concat (map walk_expr decs)"
| "walk_stmt (ClassDef n bs kws body decs) =
     StmtNode (ClassDef n bs kws body decs) #
       concat (map walk_expr bs) @ concat (map walk_expr kws) @ concat (map walk_stmt body) @
       concat (map walk_expr decs)"
| "walk_stmt (Return v) = StmtNode (Return v) # walk_opt v"
| "walk_stmt (Assign targets v) = StmtNode (Assign targets v) # concat (map walk_expr targets) @ walk_expr v"
| "walk_stmt (AnnAssign t a v) = StmtNode (AnnAssign t a v) # walk_expr t @ walk_expr a @ walk_opt v"
| "walk_stmt (For t i body orelse) =
     StmtNode (For t i body orelse) #
       walk_expr t @ walk_expr i @ concat (map walk_stmt body) @ concat (map walk_stmt orelse)"
| "walk_stmt (AsyncFor t i body orelse) =
     StmtNode (AsyncFor t i body orelse) #
       walk_expr t @ walk_expr i @ concat (map walk_stmt body) @ concat (map walk_stmt orelse)"
| "walk_stmt (While t body orelse) =
     StmtNode (While t body orelse) #
       walk_expr t @ concat (map walk_stmt body) @ concat (map walk_stmt orelse)"
| "walk_stmt (If t body orelse) =
     StmtNode (If t body orelse) #
       walk_expr t @ concat (map walk_stmt body) @ concat (map walk_stmt orelse)"
| "walk_stmt (With items body) =
     StmtNode (With items body) # concat (map walk_withitem items) @ concat (map walk_stmt body)"
| "walk_stmt (AsyncWith items body) =
     StmtNode (AsyncWith items body) # concat (map walk_withitem items) @ concat (map walk_stmt body)"
| "walk_stmt (Match subject cases) =
     StmtNode (Match subject cases) # walk_expr subject @ concat (map walk_case cases)"
| "walk_stmt (Raise e cause) = StmtNode (Raise e cause) # walk_opt e @ walk_opt cause"
| "walk_stmt (Try body handlers orelse finalbody) =
     StmtNode (Try body handlers orelse finalbody) #
       concat (map walk_stmt body) @ concat (map walk_handler handlers) @
       concat (map walk_stmt orelse) @ concat (map walk_stmt finalbody)"
| "walk_stmt (Assert t msg) = StmtNode (Assert t msg) # walk_expr t @ walk_opt msg"
| "walk_stmt (OtherStmt es) = StmtNode (OtherStmt es) # concat (map walk_expr es)"
| "walk_handler (ExceptHandler t body) =
     HandlerNode (ExceptHandler t body) # walk_opt t @ concat (map walk_stmt body)"
| "walk_case (MatchCase pattern guard body) =
     CaseNode (MatchCase pattern guard body) #
       concat (map walk_expr pattern) @ walk_opt guard @ concat (map walk_stmt body)"

text \<open>
  What each kind of node adds to the complexity: an \<open>if\<close> statement 1; a boolean operation
  with \<open>N\<close> operands \<open>N - 1\<close>; and the other branch points: a loop 1, a conditional
  expression 1, an exception handler 1, a \<open>match\<close> statement 1 and 1 per case arm, a
  comprehension 1 per filter clause.
\<close>

fun is_if_statement :: "ast_node \<Rightarrow> bool" where
  "is_if_statement (StmtNode (If t body orelse)) = True"
| "is_if_statement n = False"

fun boolop_increment :: "ast_node \<Rightarrow> int" where
  "boolop_increment (ExprNode (BoolOp op vals)) = int (length vals) - 1"
| "boolop_increment n = 0"

definition filters :: "comprehension list \<Rightarrow> int" where
  "filters gens = sum_list (map (\<lambda>g. int (length (case g of Comprehension t i ifs \<Rightarrow> ifs))) gens)"

fun other_increment :: "ast_node \<Rightarrow> int" where
  "other_increment (StmtNode (For t i body orelse)) = 1"
| "other_increment (StmtNode (AsyncFor t i body orelse)) = 1"
| "other_increment (StmtNode (While t body orelse)) = 1"
| "other_increment (StmtNode (Match subject cases)) = 1 + int (length cases)"
| "other_increment (HandlerNode h) = 1"
| "other_increment (ExprNode (IfExp t b e)) = 1"
| "other_increment (ExprNode (ListComp elt gens)) = filters gens"
| "other_increment (ExprNode (SetComp elt gens)) = filters gens"
| "other_increment (ExprNode (DictComp k v gens)) = filters gens"
| "other_increment (ExprNode (GeneratorExp elt gens)) = filters gens"
| "other_increment n = 0"

definition increment :: "ast_node \<Rightarrow> int" where
  "increment n = (if is_if_statement n then 1 else 0) + boolop_increment n + other_increment n"

definition points :: "ast_node list \<Rightarrow> int" where
  "points ns = sum_list (map increment ns)"

section \<open>Properties of the aggregation (combine.py)\<close>

lemma collect_weighted_eq:
  "collect_weighted weighted vlists m = vlists m @ map (\<lambda>cm. c_getitem cm m) (dict_values weighted)"
  by (induction weighted vlists rule: collect_weighted.induct) (simp_all add: dict_values_def)

text \<open>
  C6. The combined weighted summary is, metric by metric, the sum over all classes of the
  class's weighted value: a total, with no division by the number of classes.
\<close>

theorem weighted_combined_is_sum:
  "c_getitem (calculate_weighted_metrics_combined weighted) m
     = sum_list (map (\<lambda>cm. c_getitem cm m) (dict_values weighted))"
  by (cases m) (simp_all add: calculate_weighted_metrics_combined_def collect_weighted_eq)

text \<open>The loop over the other metrics never divides by zero; it returns the sum of the
  shares of the metrics with a non-zero total, and their number.\<close>

lemma weight_loop_eq:
  "weight_loop totals cd ms ws cnt =
     Inr (ws + sum_list (map (\<lambda>m. getitem cd m / totals m) (filter (\<lambda>m. totals m \<noteq> 0) ms)),
          cnt + length (filter (\<lambda>m. totals m \<noteq> 0) ms))"
  by (induction ms arbitrary: ws cnt) (simp_all add: and_then_def true_div_def)

lemma weighted_value_eq:
  "weighted_value (metric_sums cs) cd M = Inr (getitem cd M * spec_weight cs cd M)"
proof -
  let ?valid = "filter (\<lambda>m. metric_sums cs m \<noteq> 0) (filter (\<lambda>m. m \<noteq> M) ck_metrics)"
  have v: "?valid = filter (\<lambda>m. m \<noteq> M \<and> metric_sums cs m \<noteq> 0) ck_metrics"
    by (simp add: conj_commute)
  show ?thesis
    unfolding weighted_value_def Let_def weight_loop_eq and_then_def spec_weight_def v
    by (simp add: true_div_def)
qed

lemma weighted_class_eq:
  "weighted_class (metric_sums cs) cd = Inr (spec_weighted_class cs cd)"
  by (simp add: weighted_class_def weighted_value_eq and_then_def spec_weighted_class_def)

lemma c_getitem_spec_weighted_class:
  "c_getitem (spec_weighted_class cs cd) M = getitem cd M * spec_weight cs cd M"
  by (cases M) (simp_all add: spec_weighted_class_def)

lemma dict_set_append:
  "k \<notin> fst ` set d \<Longrightarrow> dict_set d k v = d @ [(k, v)]"
  by (induction d) auto

lemma combine_loop_eq:
  "distinct (map fst cs) \<Longrightarrow> fst ` set cs \<inter> fst ` set acc = {} \<Longrightarrow>
   combine_loop (metric_sums cs0) cs acc
     = Inr (acc @ map (\<lambda>(n, cd). (n, spec_weighted_class cs0 cd)) cs)"
proof (induction cs arbitrary: acc)
  case Nil
  then show ?case by simp
next
  case (Cons p cs)
  obtain n cd where p: "p = (n, cd)" by (cases p)
  have notin: "n \<notin> fst ` set acc" using Cons.prems(2) p by auto
  have d: "distinct (map fst cs)" and n: "n \<notin> fst ` set cs" using Cons.prems(1) p by auto
  have disj: "fst ` set cs \<inter> fst ` set (acc @ [(n, spec_weighted_class cs0 cd)]) = {}"
    using Cons.prems(2) n p by auto
  show ?case
    using Cons.IH[OF d disj]
    by (simp add: p weighted_class_eq and_then_def dict_set_append[OF notin])
qed

lemma combine_metrics_eq:
  "distinct (map fst (class_summary pm)) \<Longrightarrow>
   combine_metrics pm = Inr (map (\<lambda>(n, cd). (n, spec_weighted_class (class_summary pm) cd)) (class_summary pm))"
  using combine_loop_eq[of "class_summary pm" "[]" "class_summary pm"]
  by (simp add: combine_metrics_def Let_def)

text \<open>
  C5. In a project (a dict, so with distinct class names), for every class and every target
  metric \<open>M\<close> the weighting returns, and the weighted value is the original value of \<open>M\<close>
  times the weight of the specification: the mean over the other metrics with a non-zero
  project-wide sum of the class's share, or 1 when no such metric remains.
\<close>

theorem cross_metric_weighting:
  assumes "distinct (map fst (class_summary pm))"
    and "(class_name, class_data) \<in> set (class_summary pm)"
  shows "\<exists>weighted cm. combine_metrics pm = Inr weighted \<and> map_of weighted class_name = Some cm \<and>
           c_getitem cm M = getitem class_data M * spec_weight (class_summary pm) class_data M"
proof -
  let ?w = "map (\<lambda>(n, cd). (n, spec_weighted_class (class_summary pm) cd)) (class_summary pm)"
  have "map_of (class_summary pm) class_name = Some class_data"
    using assms by simp
  then have "map_of ?w class_name = Some (spec_weighted_class (class_summary pm) class_data)"
    by (induction "class_summary pm") (auto simp: map_of_map)
  then show ?thesis
    using combine_metrics_eq[OF assms(1)] c_getitem_spec_weighted_class by blast
qed

lemma example_project_sums:
  "metric_sums (class_summary example_project) WMC = 4"
  "metric_sums (class_summary example_project) DIT = 1"
  "metric_sums (class_summary example_project) NOC = 1"
  "metric_sums (class_summary example_project) CBO = 1"
  "metric_sums (class_summary example_project) RFC = 4"
  "metric_sums (class_summary example_project) LCOM4 = 2"
  "metric_sums (class_summary example_project) LCOM4_normalized = 0"
  by (simp_all add: metric_sums_def example_project_def dict_values_def parent_metrics_def child_metrics_def)

theorem cross_metric_weighting_witness:
  "distinct (map fst (class_summary example_project)) \<and>
   (''Parent'', parent_metrics) \<in> set (class_summary example_project) \<and>
   spec_weight (class_summary example_project) parent_metrics WMC = 2 / 5 \<and>
   (\<exists>weighted cm. combine_metrics example_project = Inr weighted \<and>
       map_of weighted ''Parent'' = Some cm \<and> c_getitem cm WMC = 4 / 5)"
proof -
  have d: "distinct (map fst (class_summary example_project))"
    by (simp add: example_project_def)
  have m: "(''Parent'', parent_metrics) \<in> set (class_summary example_project)"
    by (simp add: example_project_def)
  have w: "spec_weight (class_summary example_project) parent_metrics WMC = 2 / 5"
    by (simp add: spec_weight_def ck_metrics_def example_project_sums) (simp add: parent_metrics_def)
  have g: "getitem parent_metrics WMC = 2" by (simp add: parent_metrics_def)
  show ?thesis
    using cross_metric_weighting[OF d m, of WMC] d m w g by simp
qed

lemma spec_weight_zero_sums:
  "(\<And>m. metric_sums cs m = 0) \<Longrightarrow> spec_weight cs cd M = 1"
  by (simp add: spec_weight_def)

lemma spec_weighted_class_zero_sums:
  "(\<And>m. metric_sums cs m = 0) \<Longrightarrow> spec_weighted_class cs cd = to_combined cd"
  by (simp add: spec_weighted_class_def spec_weight_zero_sums to_combined_def)

text \<open>
  C4. When the project-wide sum of every metric is 0, the weighting returns (no division
  by zero is attempted) and gives every class its original values: the weight is 1.
\<close>

theorem zero_sums_unweighted:
  assumes "distinct (map fst (class_summary pm))"
    and "\<forall>m. metric_sums (class_summary pm) m = 0"
  shows "combine_metrics pm = Inr (map (\<lambda>(k, v). (k, to_combined v)) (class_summary pm))"
  using combine_metrics_eq[OF assms(1)] assms(2)
  by (simp add: spec_weighted_class_zero_sums)

theorem zero_sums_unweighted_witness:
  "distinct (map fst (class_summary two_empty_classes)) \<and>
   (\<forall>m. metric_sums (class_summary two_empty_classes) m = 0) \<and>
   combine_metrics two_empty_classes
     = Inr [(''A'', to_combined empty_class), (''B'', to_combined empty_class)]"
proof -
  have d: "distinct (map fst (class_summary two_empty_classes))"
    by (simp add: two_empty_classes_def)
  have z: "\<forall>m. metric_sums (class_summary two_empty_classes) m = 0"
  proof
    fix m show "metric_sums (class_summary two_empty_classes) m = 0"
      by (cases m) (simp_all add: metric_sums_def dict_values_def empty_class_def two_empty_classes_def)
  qed
  show ?thesis
    using zero_sums_unweighted[OF d z] d z by (simp add: two_empty_classes_def)
qed

lemma mean_Inr: "xs \<noteq> [] \<Longrightarrow> \<exists>r. mean xs = Inr r"
  by (cases xs) (simp_all add: mean_def)

lemma median_eq:
  "xs \<noteq> [] \<Longrightarrow> median xs =
     Inr (if length xs mod 2 = 1 then sort xs ! (length xs div 2)
          else (sort xs ! (length xs div 2 - 1) + sort xs ! (length xs div 2)) / 2)"
proof -
  assume "xs \<noteq> []"
  then have "sort xs \<noteq> []" by (metis length_sort length_0_conv)
  then show ?thesis by (simp add: median_def Let_def)
qed

lemma median_Inr: "xs \<noteq> [] \<Longrightarrow> \<exists>r. median xs = Inr r"
  using median_eq by blast

lemma summarise_Inr:
  assumes "\<And>m. \<exists>r. stat (vals m) = Inr r"
  shows "\<exists>r. summarise stat vals = Inr r"
proof -
  obtain w where w: "stat (vals WMC) = Inr w" using assms by blast
  obtain d where d: "stat (vals DIT) = Inr d" using assms by blast
  obtain n where n: "stat (vals NOC) = Inr n" using assms by blast
  obtain c where c: "stat (vals CBO) = Inr c" using assms by blast
  obtain r where r: "stat (vals RFC) = Inr r" using assms by blast
  obtain l where l: "stat (vals LCOM4) = Inr l" using assms by blast
  obtain ln where ln: "stat (vals LCOM4_normalized) = Inr ln" using assms by blast
  show ?thesis by (simp add: summarise_def and_then_def w d n c r l ln)
qed

lemma values_of_Nil: "values_of cs m = [] \<longleftrightarrow> cs = []"
  by (simp add: values_of_def dict_values_def)

text \<open>
  C2, as the code has it. For a project with zero classes the weighting returns the empty
  dict and the combined weighted summary is 0 for every metric, but the mean summary and
  the median summary each raise \<open>StatisticsError\<close>, and so does the aggregation as a
  whole. With at least one class the aggregation returns.
\<close>

theorem aggregation_zero_classes:
  "(class_summary pm = [] \<longrightarrow>
      combine_metrics pm = Inr [] \<and>
      calculate_weighted_metrics_combined [] =
        \<lparr>c_wmc = 0, c_dit = 0, c_noc = 0, c_cbo = 0, c_rfc = 0, c_lcom4 = 0, c_lcom4_normalized = 0\<rparr> \<and>
      calculate_mean_metrics pm = Inl StatisticsError \<and>
      calculate_median_metrics pm = Inl StatisticsError \<and>
      get_aggregated_metrics pm = Inl StatisticsError) \<and>
   (class_summary pm \<noteq> [] \<and> distinct (map fst (class_summary pm)) \<longrightarrow>
      (\<exists>r. get_aggregated_metrics pm = Inr r))"
proof (intro conjI impI)
  assume e: "class_summary pm = []"
  show "combine_metrics pm = Inr []" by (simp add: combine_metrics_def e)
  show "calculate_weighted_metrics_combined [] =
        \<lparr>c_wmc = 0, c_dit = 0, c_noc = 0, c_cbo = 0, c_rfc = 0, c_lcom4 = 0, c_lcom4_normalized = 0\<rparr>"
    by (simp add: calculate_weighted_metrics_combined_def)
  show m: "calculate_mean_metrics pm = Inl StatisticsError"
    by (simp add: calculate_mean_metrics_def summarise_def values_of_def dict_values_def e mean_def and_then_def)
  show "calculate_median_metrics pm = Inl StatisticsError"
    by (simp add: calculate_median_metrics_def summarise_def values_of_def dict_values_def e median_def and_then_def)
  show "get_aggregated_metrics pm = Inl StatisticsError"
    by (simp add: get_aggregated_metrics_def combine_metrics_def e m and_then_def)
next
  assume ne: "class_summary pm \<noteq> [] \<and> distinct (map fst (class_summary pm))"
  then have v: "\<And>m. values_of (class_summary pm) m \<noteq> []" by (simp add: values_of_Nil)
  obtain a where a: "calculate_mean_metrics pm = Inr a"
    unfolding calculate_mean_metrics_def
    using summarise_Inr[of mean "values_of (class_summary pm)"] mean_Inr[OF v] by blast
  obtain b where b: "calculate_median_metrics pm = Inr b"
    unfolding calculate_median_metrics_def
    using summarise_Inr[of median "values_of (class_summary pm)"] median_Inr[OF v] by blast
  show "\<exists>r. get_aggregated_metrics pm = Inr r"
    using combine_metrics_eq[of pm] ne
    by (simp add: get_aggregated_metrics_def a b and_then_def)
qed

theorem aggregation_zero_classes_witness:
  "class_summary zero_class_project = [] \<and>
   combine_metrics zero_class_project = Inr [] \<and>
   calculate_mean_metrics zero_class_project = Inl StatisticsError \<and>
   calculate_median_metrics zero_class_project = Inl StatisticsError \<and>
   get_aggregated_metrics zero_class_project = Inl StatisticsError \<and>
   class_summary example_project \<noteq> [] \<and> distinct (map fst (class_summary example_project)) \<and>
   (\<exists>r. get_aggregated_metrics example_project = Inr r)"
proof -
  have z: "class_summary zero_class_project = []" by (simp add: zero_class_project_def)
  have e: "class_summary example_project \<noteq> [] \<and> distinct (map fst (class_summary example_project))"
    by (simp add: example_project_def)
  show ?thesis
    using aggregation_zero_classes[of zero_class_project] aggregation_zero_classes[of example_project] z e
    by simp
qed

text \<open>The claim as stated fails: on the project without classes the mean summary, the
  median summary and the aggregation raise.\<close>

theorem aggregation_zero_classes_counterexample:
  "get_aggregated_metrics \<lparr>files = [], class_summary = []\<rparr> = Inl StatisticsError \<and>
   calculate_mean_metrics \<lparr>files = [], class_summary = []\<rparr> = Inl StatisticsError \<and>
   calculate_median_metrics \<lparr>files = [], class_summary = []\<rparr> = Inl StatisticsError"
  by (simp add: get_aggregated_metrics_def combine_metrics_def calculate_mean_metrics_def
      calculate_median_metrics_def summarise_def values_of_def dict_values_def mean_def median_def and_then_def)

text \<open>The bundle that \<open>get_aggregated_metrics\<close> returns holds the weighting and, as its
  combined weighted summary, the sums over that weighting.\<close>

lemma aggregated_bundle:
  assumes "get_aggregated_metrics project_metrics = Inr r"
  shows "combine_metrics project_metrics = Inr (weighted_metrics r)"
    and "c_getitem (weighted_metrics_combined r) m
           = sum_list (map (\<lambda>cm. c_getitem cm m) (dict_values (weighted_metrics r)))"
proof -
  obtain weighted mean_m median_m where w: "combine_metrics project_metrics = Inr weighted"
    and r: "r = \<lparr>original_metrics = map (\<lambda>(k, v). (k, to_combined v)) (class_summary project_metrics),
                 weighted_metrics = weighted,
                 weighted_metrics_combined = calculate_weighted_metrics_combined weighted,
                 mean_metrics = mean_m, median_metrics = median_m\<rparr>"
    using assms by (auto simp: get_aggregated_metrics_def and_then_def split: sum.splits)
  show "combine_metrics project_metrics = Inr (weighted_metrics r)" using w r by simp
  have "c_getitem (calculate_weighted_metrics_combined weighted) m
          = sum_list (map (\<lambda>cm. c_getitem cm m) (dict_values weighted))"
    by (cases m) (simp_all add: calculate_weighted_metrics_combined_def collect_weighted_eq)
  then show "c_getitem (weighted_metrics_combined r) m
           = sum_list (map (\<lambda>cm. c_getitem cm m) (dict_values (weighted_metrics r)))"
    using r by simp
qed

section \<open>Properties of the complexity visitor\<close>

text \<open>A visit adds the same amount whatever the value of the counter before it.\<close>

lemma fold_shift:
  assumes "\<And>x c. x \<in> set xs \<Longrightarrow> f x (c + k) = f x c + (k::int)"
  shows "fold f xs (c + k) = fold f xs c + k"
  using assms by (induction xs arbitrary: c) simp_all

lemma fold_add_shift:
  "fold (\<lambda>g c. c + h g) xs (c + k) = fold (\<lambda>g c. c + h g) xs c + (k::int)"
proof (induction xs arbitrary: c)
  case Nil
  show ?case by simp
next
  case (Cons a xs)
  have e: "c + k + h a = (c + h a) + k" by simp
  show ?case by (simp only: fold_simps o_apply e Cons)
qed

lemma shift_one: "c + k + 1 = c + 1 + (k::int)"
  by simp

lemma shift_len: "c + k + (int n - 1) = c + (int n - 1) + k"
  by simp

lemma shift_int: "c + k + int n = c + int n + (k::int)"
  by simp

lemma cv_expr_shift:
  "cv_expr e (c + k) = cv_expr e c + k"
  "cv_comprehension g (c + k) = cv_comprehension g c + k"
  by (induction e and g arbitrary: c and c)
     (auto simp: fold_shift fold_add_shift shift_one[of _ k] shift_len[of _ k] split: option.splits)

lemma cv_opt_shift: "cv_opt v (c + k) = cv_opt v c + k"
  by (cases v) (simp_all add: cv_opt_def cv_expr_shift)

lemma cv_withitem_shift: "cv_withitem i (c + k) = cv_withitem i c + k"
  by (simp add: cv_withitem_def cv_opt_shift cv_expr_shift)

lemma cv_stmt_shift:
  "cv_stmt s (c + k) = cv_stmt s c + k"
  "cv_handler h (c + k) = cv_handler h c + k"
  "cv_case m (c + k) = cv_case m c + k"
  by (induction s and h and m arbitrary: c and c and c)
     (auto simp: fold_shift cv_expr_shift cv_opt_shift cv_withitem_shift
        shift_one[of _ k] shift_int[of _ k])

text \<open>A visit adds the increments of the nodes of the tree it is given.\<close>

lemma points_Nil: "points [] = 0"
  by (simp add: points_def)

lemma points_Cons: "points (n # ns) = increment n + points ns"
  by (simp add: points_def)

lemma points_append: "points (xs @ ys) = points xs + points ys"
  by (simp add: points_def)

lemma fold_points:
  assumes "\<And>x c. x \<in> set xs \<Longrightarrow> f x c = c + points (w x)"
  shows "fold f xs c = c + points (concat (map w xs))"
  using assms
proof (induction xs arbitrary: c)
  case Nil
  show ?case by (simp add: points_Nil)
next
  case (Cons x xs)
  have "fold f (x # xs) c = fold f xs (c + points (w x))" using Cons.prems by simp
  also have "\<dots> = c + points (w x) + points (concat (map w xs))"
    using Cons.prems by (intro Cons.IH) simp
  finally show ?case by (simp add: points_append)
qed

lemma fold_filters:
  "fold (\<lambda>generator c. c + int (length (case generator of Comprehension t i ifs \<Rightarrow> ifs))) gens c
     = c + filters gens"
  unfolding filters_def by (induction gens arbitrary: c) simp_all

lemma cv_expr_points:
  "cv_expr e c = c + points (walk_expr e)"
  "cv_comprehension g c = c + points (walk_comprehension g)"
proof (induction e and g arbitrary: c and c)
  case (Call f args kws)
  have a: "fold cv_expr args d = d + points (concat (map walk_expr args))" for d
    using Call(2) by (rule fold_points)
  have k: "fold cv_expr kws d = d + points (concat (map walk_expr kws))" for d
    using Call(3) by (rule fold_points)
  show ?case by (simp add: a k Call(1) points_Cons points_append increment_def)
next
  case (BoolOp op vals)
  have v: "fold cv_expr vals d = d + points (concat (map walk_expr vals))" for d
    using BoolOp by (rule fold_points)
  show ?case by (simp add: v points_Cons increment_def)
next
  case (Lambda args b)
  have a: "fold cv_expr args d = d + points (concat (map walk_expr args))" for d
    using Lambda(1) by (rule fold_points)
  show ?case by (simp add: a Lambda(2) points_Cons points_append increment_def)
next
  case (ListComp elt gens)
  have g: "fold cv_comprehension gens d = d + points (concat (map walk_comprehension gens))" for d
    using ListComp(2) by (rule fold_points)
  show ?case by (simp add: g ListComp(1) fold_filters points_Cons points_append increment_def)
next
  case (SetComp elt gens)
  have g: "fold cv_comprehension gens d = d + points (concat (map walk_comprehension gens))" for d
    using SetComp(2) by (rule fold_points)
  show ?case by (simp add: g SetComp(1) fold_filters points_Cons points_append increment_def)
next
  case (DictComp k v gens)
  have g: "fold cv_comprehension gens d = d + points (concat (map walk_comprehension gens))" for d
    using DictComp(3) by (rule fold_points)
  show ?case by (simp add: g DictComp(1,2) fold_filters points_Cons points_append increment_def)
next
  case (GeneratorExp elt gens)
  have g: "fold cv_comprehension gens d = d + points (concat (map walk_comprehension gens))" for d
    using GeneratorExp(2) by (rule fold_points)
  show ?case by (simp add: g GeneratorExp(1) fold_filters points_Cons points_append increment_def)
next
  case (Yield v)
  then show ?case by (cases v) (simp_all add: points_Cons points_Nil increment_def)
next
  case (OtherExpr es)
  have v: "fold cv_expr es d = d + points (concat (map walk_expr es))" for d
    using OtherExpr by (rule fold_points)
  show ?case by (simp add: v points_Cons increment_def)
next
  case (Comprehension t i ifs)
  have v: "fold cv_expr ifs d = d + points (concat (map walk_expr ifs))" for d
    using Comprehension(3) by (rule fold_points)
  show ?case by (simp add: v Comprehension(1,2) points_Cons points_append increment_def)
qed (simp_all add: points_Cons points_Nil points_append increment_def)

lemma cv_opt_points: "cv_opt v c = c + points (walk_opt v)"
  by (cases v) (simp_all add: cv_opt_def walk_opt_def cv_expr_points points_Nil)

lemma cv_withitem_points: "cv_withitem i c = c + points (walk_withitem i)"
  by (simp add: cv_withitem_def walk_withitem_def cv_opt_points cv_expr_points points_append)

lemma fold_cv_expr_points: "fold cv_expr es c = c + points (concat (map walk_expr es))"
  by (rule fold_points) (rule cv_expr_points)

lemma fold_cv_withitem_points: "fold cv_withitem items c = c + points (concat (map walk_withitem items))"
  by (rule fold_points) (rule cv_withitem_points)

lemmas points_simps =
  points_Cons points_append increment_def cv_expr_points cv_opt_points
  fold_cv_expr_points fold_cv_withitem_points

lemma cv_stmt_points:
  "cv_stmt s c = c + points (walk_stmt s)"
  "cv_handler h c = c + points (walk_handler h)"
  "cv_case m c = c + points (walk_case m)"
proof (induction s and h and m arbitrary: c and c and c)
  case (FunctionDef n args body decs)
  have b: "fold cv_stmt body d = d + points (concat (map walk_stmt body))" for d
    using FunctionDef by (rule fold_points)
  show ?case by (simp add: b points_simps)
next
  case (AsyncFunctionDef n args body decs)
  have b: "fold cv_stmt body d = d + points (concat (map walk_stmt body))" for d
    using AsyncFunctionDef by (rule fold_points)
  show ?case by (simp add: b points_simps)
next
  case (ClassDef n bs kws body decs)
  have b: "fold cv_stmt body d = d + points (concat (map walk_stmt body))" for d
    using ClassDef by (rule fold_points)
  show ?case by (simp add: b points_simps)
next
  case (For t i body orelse)
  have b: "fold cv_stmt body d = d + points (concat (map walk_stmt body))" for d
    using For(1) by (rule fold_points)
  have e: "fold cv_stmt orelse d = d + points (concat (map walk_stmt orelse))" for d
    using For(2) by (rule fold_points)
  show ?case by (simp add: b e points_simps)
next
  case (AsyncFor t i body orelse)
  have b: "fold cv_stmt body d = d + points (concat (map walk_stmt body))" for d
    using AsyncFor(1) by (rule fold_points)
  have e: "fold cv_stmt orelse d = d + points (concat (map walk_stmt orelse))" for d
    using AsyncFor(2) by (rule fold_points)
  show ?case by (simp add: b e points_simps)
next
  case (While t body orelse)
  have b: "fold cv_stmt body d = d + points (concat (map walk_stmt body))" for d
    using While(1) by (rule fold_points)
  have e: "fold cv_stmt orelse d = d + points (concat (map walk_stmt orelse))" for d
    using While(2) by (rule fold_points)
  show ?case by (simp add: b e points_simps)
next
  case (If t body orelse)
  have b: "fold cv_stmt body d = d + points (concat (map walk_stmt body))" for d
    using If(1) by (rule fold_points)
  have e: "fold cv_stmt orelse d = d + points (concat (map walk_stmt orelse))" for d
    using If(2) by (rule fold_points)
  show ?case by (simp add: b e points_simps)
next
  case (With items body)
  have b: "fold cv_stmt body d = d + points (concat (map walk_stmt body))" for d
    using With by (rule fold_points)
  show ?case by (simp add: b points_simps)
next
  case (AsyncWith items body)
  have b: "fold cv_stmt body d = d + points (concat (map walk_stmt body))" for d
    using AsyncWith by (rule fold_points)
  show ?case by (simp add: b points_simps)
next
  case (Match subject cases)
  have b: "fold cv_case cases d = d + points (concat (map walk_case cases))" for d
    using Match by (rule fold_points)
  show ?case by (simp add: b points_simps)
next
  case (Try body handlers orelse finalbody)
  have b: "fold cv_stmt body d = d + points (concat (map walk_stmt body))" for d
    using Try(1) by (rule fold_points)
  have h: "fold cv_handler handlers d = d + points (concat (map walk_handler handlers))" for d
    using Try(2) by (rule fold_points)
  have e: "fold cv_stmt orelse d = d + points (concat (map walk_stmt orelse))" for d
    using Try(3) by (rule fold_points)
  have f: "fold cv_stmt finalbody d = d + points (concat (map walk_stmt finalbody))" for d
    using Try(4) by (rule fold_points)
  show ?case by (simp add: b h e f points_simps)
next
  case (ExceptHandler t body)
  have b: "fold cv_stmt body d = d + points (concat (map walk_stmt body))" for d
    using ExceptHandler by (rule fold_points)
  show ?case by (simp add: b points_simps)
next
  case (MatchCase pattern guard body)
  have b: "fold cv_stmt body d = d + points (concat (map walk_stmt body))" for d
    using MatchCase by (rule fold_points)
  show ?case by (simp add: b points_simps)
qed (simp_all add: points_simps)

lemma points_split:
  "points ns = int (length (filter is_if_statement ns)) + sum_list (map boolop_increment ns) +
     sum_list (map other_increment ns)"
  by (induction ns) (simp_all add: points_Nil points_Cons increment_def)

text \<open>
  C9. The complexity of a method is 1, plus 1 for every \<open>if\<close> statement anywhere in its
  definition, plus \<open>N - 1\<close> for every boolean operation with \<open>N\<close> operands anywhere in it,
  plus what the other branch points add. At one node: an \<open>if\<close> statement adds 1 to what its
  children add, and a boolean operation with \<open>N\<close> operands adds \<open>N - 1\<close> to what its
  operands add. The method with the body \<open>if x > 0 and y > 0: return 1\<close>, \<open>return 0\<close> has
  one \<open>if\<close> statement, one boolean operation of two operands and no other branch point,
  and complexity 3.
\<close>

theorem complexity_rules:
  "ComplexityVisitor_complexity item =
     1 + int (length (filter is_if_statement (walk_stmt item)))
       + sum_list (map boolop_increment (walk_stmt item))
       + sum_list (map other_increment (walk_stmt item)) \<and>
   ComplexityVisitor_complexity item = 1 + cv_stmt item 0 \<and>
   cv_stmt (If test body orelse) c = 1 + fold cv_stmt orelse (fold cv_stmt body (cv_expr test c)) \<and>
   cv_expr (BoolOp op vals) c = (int (length vals) - 1) + fold cv_expr vals c \<and>
   ComplexityVisitor_complexity example_method = 3 \<and>
   length (filter is_if_statement (walk_stmt example_method)) = 1 \<and>
   sum_list (map boolop_increment (walk_stmt example_method)) = 1 \<and>
   sum_list (map other_increment (walk_stmt example_method)) = 0"
proof (intro conjI)
  show "ComplexityVisitor_complexity item =
     1 + int (length (filter is_if_statement (walk_stmt item)))
       + sum_list (map boolop_increment (walk_stmt item))
       + sum_list (map other_increment (walk_stmt item))"
    using points_split[of "walk_stmt item"]
    by (simp add: ComplexityVisitor_complexity_def cv_stmt_points)
  show "ComplexityVisitor_complexity item = 1 + cv_stmt item 0"
    using cv_stmt_shift(1)[of item 0 1] by (simp add: ComplexityVisitor_complexity_def)
  show "cv_stmt (If test body orelse) c = 1 + fold cv_stmt orelse (fold cv_stmt body (cv_expr test c))"
    by (simp add: cv_expr_shift fold_shift cv_stmt_shift)
  show "cv_expr (BoolOp op vals) c = (int (length vals) - 1) + fold cv_expr vals c"
    by (simp add: fold_shift cv_expr_shift)
  show "ComplexityVisitor_complexity example_method = 3"
    by (simp add: ComplexityVisitor_complexity_def example_method_def cv_opt_def)
  show "length (filter is_if_statement (walk_stmt example_method)) = 1"
    by (simp add: example_method_def walk_opt_def)
  show "sum_list (map boolop_increment (walk_stmt example_method)) = 1"
    by (simp add: example_method_def walk_opt_def)
  show "sum_list (map other_increment (walk_stmt example_method)) = 0"
    by (simp add: example_method_def walk_opt_def)
qed

text \<open>On the trees of the parser a visit never lowers the counter, so every recorded
  complexity is at least 1.\<close>

lemma fold_ge:
  assumes "\<And>x c. x \<in> set xs \<Longrightarrow> c \<le> f x (c::int)"
  shows "c \<le> fold f xs c"
  using assms
proof (induction xs arbitrary: c)
  case Nil
  show ?case by simp
next
  case (Cons a xs)
  have "c \<le> f a c" using Cons.prems by simp
  also have "\<dots> \<le> fold f xs (f a c)" using Cons by simp
  finally show ?case by simp
qed

lemma fold_add_ge: "c \<le> fold (\<lambda>g c. c + int (h g)) xs c"
  by (rule fold_ge) simp

lemma cv_expr_ge:
  "wf_expr e \<Longrightarrow> c \<le> cv_expr e c"
  "wf_comprehension g \<Longrightarrow> c \<le> cv_comprehension g c"
proof (induction e and g arbitrary: c and c)
  case (BoolOp op vals)
  have "c \<le> c + (int (length vals) - 1)" using BoolOp.prems by auto
  also have "\<dots> \<le> fold cv_expr vals (c + (int (length vals) - 1))"
    using BoolOp by (intro fold_ge) (auto simp: list_all_iff)
  finally show ?case by simp
next
  case (Call f args kws)
  have "c \<le> cv_expr f c" using Call by simp
  also have "\<dots> \<le> fold cv_expr args (cv_expr f c)" using Call by (intro fold_ge) (auto simp: list_all_iff)
  also have "\<dots> \<le> fold cv_expr kws (fold cv_expr args (cv_expr f c))"
    using Call by (intro fold_ge) (auto simp: list_all_iff)
  finally show ?case by simp
next
  case (IfExp t b e)
  have "c \<le> c + 1" by simp
  also have "\<dots> \<le> cv_expr t (c + 1)" using IfExp by simp
  also have "\<dots> \<le> cv_expr b (cv_expr t (c + 1))" using IfExp by simp
  also have "\<dots> \<le> cv_expr e (cv_expr b (cv_expr t (c + 1)))" using IfExp by simp
  finally show ?case by simp
next
  case (Lambda args b)
  have "c \<le> fold cv_expr args c" using Lambda by (intro fold_ge) (auto simp: list_all_iff)
  also have "\<dots> \<le> cv_expr b (fold cv_expr args c)" using Lambda by simp
  finally show ?case by simp
next
  case (NamedExpr t v)
  have "c \<le> cv_expr t c" using NamedExpr by simp
  also have "\<dots> \<le> cv_expr v (cv_expr t c)" using NamedExpr by simp
  finally show ?case by simp
next
  case (ListComp elt gens)
  let ?c = "fold (\<lambda>generator c. c + int (length (case generator of Comprehension t i ifs \<Rightarrow> ifs))) gens c"
  have "c \<le> ?c" by (rule fold_add_ge)
  also have "\<dots> \<le> cv_expr elt ?c" using ListComp by simp
  also have "\<dots> \<le> fold cv_comprehension gens (cv_expr elt ?c)"
    using ListComp by (intro fold_ge) (auto simp: list_all_iff)
  finally show ?case by simp
next
  case (SetComp elt gens)
  let ?c = "fold (\<lambda>generator c. c + int (length (case generator of Comprehension t i ifs \<Rightarrow> ifs))) gens c"
  have "c \<le> ?c" by (rule fold_add_ge)
  also have "\<dots> \<le> cv_expr elt ?c" using SetComp by simp
  also have "\<dots> \<le> fold cv_comprehension gens (cv_expr elt ?c)"
    using SetComp by (intro fold_ge) (auto simp: list_all_iff)
  finally show ?case by simp
next
  case (GeneratorExp elt gens)
  let ?c = "fold (\<lambda>generator c. c + int (length (case generator of Comprehension t i ifs \<Rightarrow> ifs))) gens c"
  have "c \<le> ?c" by (rule fold_add_ge)
  also have "\<dots> \<le> cv_expr elt ?c" using GeneratorExp by simp
  also have "\<dots> \<le> fold cv_comprehension gens (cv_expr elt ?c)"
    using GeneratorExp by (intro fold_ge) (auto simp: list_all_iff)
  finally show ?case by simp
next
  case (DictComp k v gens)
  let ?c = "fold (\<lambda>generator c. c + int (length (case generator of Comprehension t i ifs \<Rightarrow> ifs))) gens c"
  have "c \<le> ?c" by (rule fold_add_ge)
  also have "\<dots> \<le> cv_expr k ?c" using DictComp by simp
  also have "\<dots> \<le> cv_expr v (cv_expr k ?c)" using DictComp by simp
  also have "\<dots> \<le> fold cv_comprehension gens (cv_expr v (cv_expr k ?c))"
    using DictComp by (intro fold_ge) (auto simp: list_all_iff)
  finally show ?case by simp
next
  case (Comprehension t i ifs)
  have "c \<le> cv_expr t c" using Comprehension by simp
  also have "\<dots> \<le> cv_expr i (cv_expr t c)" using Comprehension by simp
  also have "\<dots> \<le> fold cv_expr ifs (cv_expr i (cv_expr t c))"
    using Comprehension by (intro fold_ge) (auto simp: list_all_iff)
  finally show ?case by simp
qed (auto simp: list_all_iff intro!: fold_ge split: option.splits)

lemma cv_opt_ge: "wf_opt v \<Longrightarrow> c \<le> cv_opt v c"
  by (cases v) (simp_all add: wf_opt_def cv_opt_def cv_expr_ge)

lemma cv_withitem_ge: "wf_withitem i \<Longrightarrow> c \<le> cv_withitem i c"
  using cv_expr_ge(1)[of "fst i" c] cv_opt_ge[of "snd i" "cv_expr (fst i) c"]
  by (simp add: wf_withitem_def cv_withitem_def)

lemma fold_cv_expr_ge: "list_all wf_expr es \<Longrightarrow> c \<le> fold cv_expr es c"
  by (rule fold_ge) (simp add: list_all_iff cv_expr_ge)

lemma fold_cv_withitem_ge: "list_all wf_withitem is \<Longrightarrow> c \<le> fold cv_withitem is c"
  by (rule fold_ge) (simp add: list_all_iff cv_withitem_ge)

lemma ge_chain: "c \<le> a \<Longrightarrow> (\<And>x. x \<le> f x) \<Longrightarrow> c \<le> f (a::int)"
  using order_trans by blast

lemma cv_stmt_ge:
  "wf_stmt s \<Longrightarrow> c \<le> cv_stmt s c"
  "wf_handler h \<Longrightarrow> c \<le> cv_handler h c"
  "wf_case m \<Longrightarrow> c \<le> cv_case m c"
proof (induction s and h and m arbitrary: c and c and c)
  case (Match subject cases)
  have "c \<le> c + 1 + int (length cases)" by simp
  also have "\<dots> \<le> cv_expr subject (c + 1 + int (length cases))" using Match.prems by (simp add: cv_expr_ge)
  also have "\<dots> \<le> fold cv_case cases (cv_expr subject (c + 1 + int (length cases)))"
    using Match by (intro fold_ge) (auto simp: list_all_iff)
  finally show ?case by simp
next
  case (ExceptHandler t body)
  have "c \<le> c + 1" by simp
  also have "\<dots> \<le> cv_opt t (c + 1)" using ExceptHandler.prems by (simp add: cv_opt_ge)
  also have "\<dots> \<le> fold cv_stmt body (cv_opt t (c + 1))"
    using ExceptHandler by (intro fold_ge) (auto simp: list_all_iff)
  finally show ?case by simp
next
  case (If t body orelse)
  have "c \<le> c + 1" by simp
  also have "\<dots> \<le> cv_expr t (c + 1)" using If.prems by (simp add: cv_expr_ge)
  also have "\<dots> \<le> fold cv_stmt body (cv_expr t (c + 1))" using If by (intro fold_ge) (auto simp: list_all_iff)
  also have "\<dots> \<le> fold cv_stmt orelse (fold cv_stmt body (cv_expr t (c + 1)))"
    using If by (intro fold_ge) (auto simp: list_all_iff)
  finally show ?case by simp
next
  case (While t body orelse)
  have "c \<le> c + 1" by simp
  also have "\<dots> \<le> cv_expr t (c + 1)" using While.prems by (simp add: cv_expr_ge)
  also have "\<dots> \<le> fold cv_stmt body (cv_expr t (c + 1))" using While by (intro fold_ge) (auto simp: list_all_iff)
  also have "\<dots> \<le> fold cv_stmt orelse (fold cv_stmt body (cv_expr t (c + 1)))"
    using While by (intro fold_ge) (auto simp: list_all_iff)
  finally show ?case by simp
next
  case (For t i body orelse)
  have "c \<le> c + 1" by simp
  also have "\<dots> \<le> cv_expr t (c + 1)" using For.prems by (simp add: cv_expr_ge)
  also have "\<dots> \<le> cv_expr i (cv_expr t (c + 1))" using For.prems by (simp add: cv_expr_ge)
  also have "\<dots> \<le> fold cv_stmt body (cv_expr i (cv_expr t (c + 1)))" using For by (intro fold_ge) (auto simp: list_all_iff)
  also have "\<dots> \<le> fold cv_stmt orelse (fold cv_stmt body (cv_expr i (cv_expr t (c + 1))))"
    using For by (intro fold_ge) (auto simp: list_all_iff)
  finally show ?case by simp
next
  case (AsyncFor t i body orelse)
  have "c \<le> c + 1" by simp
  also have "\<dots> \<le> cv_expr t (c + 1)" using AsyncFor.prems by (simp add: cv_expr_ge)
  also have "\<dots> \<le> cv_expr i (cv_expr t (c + 1))" using AsyncFor.prems by (simp add: cv_expr_ge)
  also have "\<dots> \<le> fold cv_stmt body (cv_expr i (cv_expr t (c + 1)))" using AsyncFor by (intro fold_ge) (auto simp: list_all_iff)
  also have "\<dots> \<le> fold cv_stmt orelse (fold cv_stmt body (cv_expr i (cv_expr t (c + 1))))"
    using AsyncFor by (intro fold_ge) (auto simp: list_all_iff)
  finally show ?case by simp
qed (auto simp: list_all_iff cv_expr_ge cv_opt_ge cv_withitem_ge
      intro!: fold_ge order_trans[OF _ fold_ge] order_trans[OF _ cv_expr_ge(1)] order_trans[OF _ cv_opt_ge])

lemma complexity_ge_one: "wf_stmt item \<Longrightarrow> 1 \<le> ComplexityVisitor_complexity item"
  by (simp add: ComplexityVisitor_complexity_def cv_stmt_ge)

section \<open>Properties of extraction\<close>

lemma set_set_add: "set (set_add s x) = insert x (set s)"
  by (auto simp: set_add_def)

lemma distinct_set_add: "distinct s \<Longrightarrow> distinct (set_add s x)"
  by (simp add: set_add_def)

lemma set_set_update: "set (set_update s xs) = set s \<union> set xs"
  unfolding set_update_def by (induction xs arbitrary: s) (auto simp: set_set_add)

lemma distinct_set_update: "distinct s \<Longrightarrow> distinct (set_update s xs)"
  unfolding set_update_def by (induction xs arbitrary: s) (auto simp: distinct_set_add)

lemma map_of_dict_set: "map_of (dict_set d k v) = (map_of d)(k \<mapsto> v)"
  by (induction d) (auto simp: fun_eq_iff)

lemma keys_dict_set: "fst ` set (dict_set d k v) = insert k (fst ` set d)"
  by (induction d) auto

lemma distinct_dict_set: "distinct (map fst d) \<Longrightarrow> distinct (map fst (dict_set d k v))"
proof (induction d)
  case Nil
  show ?case by simp
next
  case (Cons p d)
  then show ?case using keys_dict_set[of d k v] by (auto simp: image_iff)
qed

lemma set_dict_set:
  "distinct (map fst d) \<Longrightarrow> (k', v') \<in> set (dict_set d k v) \<Longrightarrow>
   (k', v') = (k, v) \<or> ((k', v') \<in> set d \<and> k' \<noteq> k)"
  by (induction d) (force split: if_splits)+

lemma dict_set_mem: "distinct (map fst d) \<Longrightarrow> (k, v) \<in> set (dict_set d k v)"
  by (induction d) auto

lemma nodes_add_node: "set (nodes (add_node G n)) = insert n (set (nodes G))"
  by (simp add: add_node_def set_set_add)

lemma edges_add_node: "edges (add_node G n) = edges G"
  by (simp add: add_node_def)

lemma nodes_add_edge: "set (nodes (add_edge G u v)) = insert u (insert v (set (nodes G)))"
  by (auto simp: add_edge_def Let_def nodes_add_node)

lemma edges_add_edge: "set (edges (add_edge G u v)) = insert (u, v) (set (edges G))"
  by (simp add: add_edge_def Let_def set_set_add edges_add_node)

lemma nodes_add_inheritance:
  "set (nodes (add_inheritance n bs G)) = set (nodes G) \<union> {n} \<union> {b \<in> set bs. b \<noteq> ''object''}"
proof -
  have "set (nodes (fold (\<lambda>base G. if base \<noteq> ''object'' then add_edge G base n else G) bs H))
        = set (nodes H) \<union> {b \<in> set bs. b \<noteq> ''object''}" if "n \<in> set (nodes H)" for H
    using that by (induction bs arbitrary: H) (auto simp: nodes_add_edge)
  then show ?thesis by (auto simp: add_inheritance_def nodes_add_node)
qed

lemma edges_add_inheritance:
  "set (edges (add_inheritance n bs G)) = set (edges G) \<union> {(b, n) | b. b \<in> set bs \<and> b \<noteq> ''object''}"
proof -
  have "set (edges (fold (\<lambda>base G. if base \<noteq> ''object'' then add_edge G base n else G) bs H))
        = set (edges H) \<union> {(b, n) | b. b \<in> set bs \<and> b \<noteq> ''object''}" for H
    by (induction bs arbitrary: H) (auto simp: edges_add_edge)
  then show ?thesis by (simp add: add_inheritance_def edges_add_node)
qed

lemma wf_add_inheritance: "wf_graph G \<Longrightarrow> wf_graph (add_inheritance n bs G)"
  by (auto simp: wf_graph_def nodes_add_inheritance edges_add_inheritance)

lemma bases_process_item: "bases (process_item item ci) = bases ci"
proof -
  have t: "bases (assign_target e c) = bases c" for e c
    by (induction e c rule: assign_target.induct) simp_all
  have f: "bases (fold assign_target ts c) = bases c" for ts c
    by (induction ts arbitrary: c) (simp_all add: t)
  show ?thesis
    by (cases item) (simp_all add: process_method_def Let_def t f)
qed

lemma bases_extract_class: "bases (extract_class n bs body) = bs"
proof -
  have "bases (fold process_item body c) = bases c" for c
    by (induction body arbitrary: c) (simp_all add: bases_process_item)
  then show ?thesis by (simp add: extract_class_def ClassInfo_init_def)
qed

lemma process_node_cases:
  obtains (same) "process_node f d self = self"
  | (cls) n nb kws body decs where "d = ClassDef n nb kws body decs" "\<not> skipped self n"
      "process_node f d self =
         self\<lparr>file_paths := dict_set (file_paths self) n f,
              classes := dict_set (classes self) n (extract_class n (resolve_bases nb) body),
              inheritance_graph := add_inheritance n (resolve_bases nb) (inheritance_graph self)\<rparr>"
proof (cases d)
  case (ClassDef n nb kws body decs)
  show ?thesis
  proof (cases "skipped self n")
    case True
    then show ?thesis using same ClassDef by simp
  next
    case False
    then show ?thesis using cls[of n nb kws body decs] ClassDef by (simp add: Let_def)
  qed
qed (use same in simp_all)

lemma ck_inv_init: "ck_inv (CKMetrics_init cf)"
  by (simp add: ck_inv_def CKMetrics_init_def wf_graph_def empty_graph_def)

lemma ck_inv_process_node: "ck_inv self \<Longrightarrow> ck_inv (process_node f d self)"
proof (cases f d self rule: process_node_cases)
  case same
  assume "ck_inv self" then show ?thesis using same by simp
next
  case (cls n nb kws body decs)
  assume inv: "ck_inv self"
  let ?G = "inheritance_graph self"
  let ?G' = "add_inheritance n (resolve_bases nb) ?G"
  let ?ci = "extract_class n (resolve_bases nb) body"
  have wf: "wf_graph ?G'" using inv by (simp add: ck_inv_def wf_add_inheritance)
  have d: "distinct (map fst (dict_set (classes self) n ?ci))"
    using inv by (simp add: ck_inv_def distinct_dict_set)
  have e: "n' \<in> set (nodes ?G') \<and> (\<forall>b. b \<in> set (bases ci') \<and> b \<noteq> ''object'' \<longrightarrow> edge ?G' b n')"
    if m: "(n', ci') \<in> set (dict_set (classes self) n ?ci)" for n' ci'
  proof -
    have "distinct (map fst (classes self))" using inv by (simp add: ck_inv_def)
    from set_dict_set[OF this m] show ?thesis
    proof
      assume "(n', ci') = (n, ?ci)"
      then show ?thesis
        by (auto simp: nodes_add_inheritance edges_add_inheritance edge_def bases_extract_class)
    next
      assume "(n', ci') \<in> set (classes self) \<and> n' \<noteq> n"
      then show ?thesis using inv
        by (auto simp: ck_inv_def nodes_add_inheritance edges_add_inheritance edge_def)
    qed
  qed
  have d2: "distinct (map fst (dict_set (file_paths self) n f))"
    using inv by (simp add: ck_inv_def distinct_dict_set)
  show ?thesis unfolding cls(3) ck_inv_def using wf d d2 e by simp
qed

lemma ck_inv_process_ast: "ck_inv self \<Longrightarrow> ck_inv (process_ast walk f self)"
  unfolding process_ast_def by (induction walk arbitrary: self) (simp_all add: ck_inv_process_node)

lemma ck_inv_parse_directory: "ck_inv self \<Longrightarrow> ck_inv (parse_directory fs self)"
  unfolding parse_directory_def
  by (induction fs arbitrary: self) (auto simp: ck_inv_process_ast)

lemma no_incoming_process_node:
  assumes "c \<notin> snd ` set (edges (inheritance_graph self))" "declares_no_base c d"
  shows "c \<notin> snd ` set (edges (inheritance_graph (process_node f d self)))"
proof (cases f d self rule: process_node_cases)
  case same
  then show ?thesis using assms by simp
next
  case (cls n nb kws body decs)
  then show ?thesis using assms by (auto simp: edges_add_inheritance)
qed

lemma no_incoming_process_ast:
  assumes "c \<notin> snd ` set (edges (inheritance_graph self))" "\<forall>d\<in>set walk. declares_no_base c d"
  shows "c \<notin> snd ` set (edges (inheritance_graph (process_ast walk f self)))"
  using assms unfolding process_ast_def
  by (induction walk arbitrary: self) (simp_all add: no_incoming_process_node)

lemma no_incoming_parse_directory:
  assumes "c \<notin> snd ` set (edges (inheritance_graph self))"
    "\<forall>(f, walk)\<in>set fs. \<forall>d\<in>set walk. declares_no_base c d"
  shows "c \<notin> snd ` set (edges (inheritance_graph (parse_directory fs self)))"
  using assms unfolding parse_directory_def
proof (induction fs arbitrary: self)
  case Nil
  then show ?case by simp
next
  case (Cons a fs)
  obtain f walk where a: "a = (f, walk)" by (cases a)
  have "c \<notin> snd ` set (edges (inheritance_graph (process_ast walk f self)))"
    using Cons.prems a by (intro no_incoming_process_ast) auto
  then show ?case using Cons.IH[of "process_ast walk f self"] Cons.prems(2) a by simp
qed

section \<open>Properties of the inheritance graph and of DIT\<close>

lemma set_successors: "set (successors G u) = {v. edge G u v}"
  by (force simp: successors_def edge_def)

lemma dfs_set:
  assumes "visited \<noteq> []" "distinct visited" "target \<notin> set visited"
  shows "set (simple_paths_dfs k G target visited) =
     {visited @ q | q. q \<noteq> [] \<and> length q \<le> k \<and> distinct (visited @ q) \<and>
        successively (edge G) (last visited # q) \<and> last q = target}"
  using assms
proof (induction k arbitrary: visited)
  case 0
  then show ?case by auto
next
  case (Suc k)
  let ?R = "\<lambda>k vis. {vis @ q | q. q \<noteq> [] \<and> length q \<le> k \<and> distinct (vis @ q) \<and>
        successively (edge G) (last vis # q) \<and> last q = target}"
  have IH: "set (simple_paths_dfs k G target (visited @ [child])) = ?R k (visited @ [child])"
    if "child \<notin> set visited" "child \<noteq> target" for child
    using Suc.IH[of "visited @ [child]"] Suc.prems that by simp
  show ?case
  proof (intro set_eqI iffI)
    fix p assume "p \<in> set (simple_paths_dfs (Suc k) G target visited)"
    then obtain child where c: "edge G (last visited) child" "child \<notin> set visited"
      and p: "(child = target \<and> p = visited @ [child]) \<or>
              (child \<noteq> target \<and> p \<in> set (simple_paths_dfs k G target (visited @ [child])))"
      by (auto simp: set_successors split: if_splits)
    from p show "p \<in> ?R (Suc k) visited"
    proof
      assume "child = target \<and> p = visited @ [child]"
      then show ?thesis using c Suc.prems by (auto intro!: exI[of _ "[child]"])
    next
      assume a: "child \<noteq> target \<and> p \<in> set (simple_paths_dfs k G target (visited @ [child]))"
      then have "p \<in> ?R k (visited @ [child])" using IH c by blast
      then obtain q where q: "p = (visited @ [child]) @ q" "q \<noteq> []" "length q \<le> k"
        "distinct ((visited @ [child]) @ q)" "successively (edge G) (last (visited @ [child]) # q)"
        "last q = target" by blast
      have "successively (edge G) (last visited # child # q)" using q(5) c(1) by simp
      then show ?thesis using q by (auto intro!: exI[of _ "child # q"])
    qed
  next
    fix p assume "p \<in> ?R (Suc k) visited"
    then obtain q where q: "p = visited @ q" "q \<noteq> []" "length q \<le> Suc k"
        "distinct (visited @ q)" "successively (edge G) (last visited # q)" "last q = target"
      by blast
    obtain child q' where qq: "q = child # q'" using q(2) by (cases q) auto
    have e: "edge G (last visited) child" using q(5) qq by simp
    have nv: "child \<notin> set visited" using q(4) qq by auto
    show "p \<in> set (simple_paths_dfs (Suc k) G target visited)"
    proof (cases "child = target")
      case True
      have "q' = []"
      proof (rule ccontr)
        assume "q' \<noteq> []"
        then have "last q' = target" using q(6) qq by simp
        then have "target \<in> set q'" using \<open>q' \<noteq> []\<close> last_in_set by metis
        then show False using q(4) qq True by auto
      qed
      then show ?thesis using e nv True q(1) qq by (auto simp: set_successors)
    next
      case False
      then have ne: "q' \<noteq> []" using q(6) qq by auto
      have "p \<in> ?R k (visited @ [child])"
        using q qq ne by (auto intro!: exI[of _ q'] simp: successively_Cons)
      then have "p \<in> set (simple_paths_dfs k G target (visited @ [child]))"
        using IH[OF nv False] by blast
      then show ?thesis using e nv False by (auto simp: set_successors)
    qed
  qed
qed


lemma successively_targets:
  "successively (edge G) (u # q) \<Longrightarrow> set q \<subseteq> snd ` set (edges G)"
proof (induction q arbitrary: u)
  case Nil
  then show ?case by simp
next
  case (Cons a q)
  then have "edge G u a" "successively (edge G) (a # q)" by simp_all
  then show ?case using Cons.IH[of a] by (force simp: edge_def)
qed

lemma simple_path_length:
  assumes "wf_graph G" "simple_path G p" "hd p \<in> set (nodes G)"
  shows "length p \<le> length (nodes G)"
proof -
  obtain r q where p: "p = r # q" using assms(2) by (cases p) (auto simp: simple_path_def)
  have "set q \<subseteq> set (nodes G)"
    using successively_targets[of G r q] assms(1,2) p by (auto simp: simple_path_def wf_graph_def)
  then have "set p \<subseteq> set (nodes G)" using assms(3) p by auto
  then have "card (set p) \<le> card (set (nodes G))" by (simp add: card_mono)
  moreover have "card (set p) = length p" using assms(2) by (simp add: simple_path_def distinct_card)
  moreover have "card (set (nodes G)) \<le> length (nodes G)" by (rule card_length)
  ultimately show ?thesis by simp
qed

lemma all_simple_paths_set:
  assumes "wf_graph G" "r \<in> set (nodes G)" "r \<noteq> c"
  shows "set (all_simple_paths G r c) = {p. simple_path G p \<and> hd p = r \<and> last p = c}"
proof (intro set_eqI iffI)
  fix p assume "p \<in> set (all_simple_paths G r c)"
  then have "p \<in> set (simple_paths_dfs (length (nodes G) - 1) G c [r])"
    using assms(3) by (simp add: all_simple_paths_def)
  then obtain q where "p = [r] @ q" "q \<noteq> []" "distinct ([r] @ q)"
      "successively (edge G) (last [r] # q)" "last q = c"
    using dfs_set[of "[r]" c "length (nodes G) - 1" G] assms(3) by auto
  then show "p \<in> {p. simple_path G p \<and> hd p = r \<and> last p = c}"
    by (simp add: simple_path_def)
next
  fix p assume "p \<in> {p. simple_path G p \<and> hd p = r \<and> last p = c}"
  then have sp: "simple_path G p" and h: "hd p = r" and l: "last p = c" by simp_all
  obtain q where p: "p = r # q" using sp h by (cases p) (auto simp: simple_path_def)
  have ne: "q \<noteq> []" using l p assms(3) by auto
  have "length p \<le> length (nodes G)"
    using simple_path_length[OF assms(1) sp] h assms(2) by simp
  then have len: "length q \<le> length (nodes G) - 1" using p by simp
  have "p \<in> {[r] @ q | q. q \<noteq> [] \<and> length q \<le> length (nodes G) - 1 \<and> distinct ([r] @ q) \<and>
        successively (edge G) (last [r] # q) \<and> last q = c}"
    using p ne len sp l by (auto simp: simple_path_def)
  then have "p \<in> set (simple_paths_dfs (length (nodes G) - 1) G c [r])"
    using dfs_set[of "[r]" c "length (nodes G) - 1" G] assms(3) by simp
  then show "p \<in> set (all_simple_paths G r c)"
    using assms(3) by (simp add: all_simple_paths_def)
qed

lemma py_max_Max: "xs \<noteq> [] \<Longrightarrow> py_max xs = Max (set xs)"
proof (cases xs)
  case Nil
  then show "xs \<noteq> [] \<Longrightarrow> ?thesis" by simp
next
  case (Cons x ys)
  show ?thesis using Max.set_eq_fold[of x ys] by (simp add: Cons)
qed

lemma py_max_in: "xs \<noteq> [] \<Longrightarrow> py_max xs \<in> set xs"
  using Max_in[of "set xs"] by (simp add: py_max_Max)

lemma py_max_ge: "x \<in> set xs \<Longrightarrow> x \<le> py_max xs"
proof -
  assume x: "x \<in> set xs"
  then have "xs \<noteq> []" by auto
  then have "py_max xs = Max (set xs)" by (rule py_max_Max)
  then show ?thesis using x by simp
qed

lemma dit_fold_ge:
  "m \<le> fold (dit_step G c) rs m"
  "r \<in> set rs \<Longrightarrow> p \<in> set (all_simple_paths G r c) \<Longrightarrow> int (length p) - 1 \<le> fold (dit_step G c) rs m"
proof (induction rs arbitrary: m)
  case Nil
  { case 1 show ?case by simp }
  { case 2 then show ?case by simp }
next
  case (Cons a rs)
  { case 1
    have "m \<le> dit_step G c a m" by (simp add: dit_step_def Let_def)
    then show ?case using Cons.IH(1)[of "dit_step G c a m"] by simp }
  { case 2
    show ?case
    proof (cases "r = a")
      case True
      then have "int (length p) - 1 \<le> py_max (map (\<lambda>path. int (length path) - 1) (all_simple_paths G a c))"
        using 2(2) by (intro py_max_ge) auto
      then have "int (length p) - 1 \<le> dit_step G c a m"
        using 2(2) True by (auto simp: dit_step_def Let_def)
      then show ?thesis using Cons.IH(1)[of "dit_step G c a m"] by simp
    next
      case False
      then show ?thesis using 2 Cons.IH(2)[of "dit_step G c a m"] by simp
    qed }
qed

lemma dit_fold_attained:
  "fold (dit_step G c) rs m = m \<or>
   (\<exists>r\<in>set rs. \<exists>p\<in>set (all_simple_paths G r c). fold (dit_step G c) rs m = int (length p) - 1)"
proof (induction rs arbitrary: m)
  case Nil
  show ?case by simp
next
  case (Cons a rs)
  let ?m' = "dit_step G c a m"
  have step: "?m' = m \<or> (\<exists>p\<in>set (all_simple_paths G a c). ?m' = int (length p) - 1)"
  proof (cases "all_simple_paths G a c = []")
    case True
    then show ?thesis by (simp add: dit_step_def)
  next
    case False
    then have "py_max (map (\<lambda>path. int (length path) - 1) (all_simple_paths G a c))
        \<in> set (map (\<lambda>path. int (length path) - 1) (all_simple_paths G a c))"
      by (intro py_max_in) simp
    then show ?thesis using False by (auto simp: dit_step_def Let_def max_def)
  qed
  from Cons[of ?m'] step show ?case by auto
qed

lemma calculate_dit_fold:
  "calculate_dit self c =
     (if c \<notin> set (nodes (inheritance_graph self)) then 0
      else fold (dit_step (inheritance_graph self) c)
             (filter (\<lambda>node. in_degree (inheritance_graph self) node = 0) (nodes (inheritance_graph self))) 0)"
  by (simp add: calculate_dit_def Let_def has_node_def)

lemma in_degree_zero: "in_degree G n = 0 \<longleftrightarrow> n \<notin> snd ` set (edges G)"
  by (auto simp: in_degree_def filter_empty_conv)

lemma roots_set:
  "set (filter (\<lambda>node. in_degree G node = 0) (nodes G)) = {r. is_root G r}"
  by (auto simp: in_degree_zero is_root_def)


lemma single_path:
  assumes "distinct p" "p \<noteq> []" "hd p = last p"
  shows "length p = 1"
proof (cases p)
  case Nil
  then show ?thesis using assms by simp
next
  case (Cons a q)
  show ?thesis
  proof (cases "q = []")
    case True
    then show ?thesis using Cons by simp
  next
    case False
    then have "last q \<in> set q" by simp
    moreover have "last q = a" using assms(3) Cons False by simp
    ultimately show ?thesis using assms(1) Cons by simp
  qed
qed

lemma dit_upper:
  assumes "wf_graph (inheritance_graph self)" "c \<in> set (nodes (inheritance_graph self))"
    and "root_path (inheritance_graph self) c p"
  shows "int (length p) - 1 \<le> calculate_dit self c"
proof -
  let ?G = "inheritance_graph self"
  let ?roots = "filter (\<lambda>node. in_degree ?G node = 0) (nodes ?G)"
  have D: "calculate_dit self c = fold (dit_step ?G c) ?roots 0"
    using assms(2) by (simp add: calculate_dit_fold)
  have sp: "simple_path ?G p" and r: "is_root ?G (hd p)" and l: "last p = c"
    using assms(3) by (simp_all add: root_path_def)
  show ?thesis
  proof (cases "hd p = c")
    case True
    then have "length p = 1" using single_path[of p] sp l by (simp add: simple_path_def)
    then show ?thesis using dit_fold_ge(1)[of 0 ?G c ?roots] D by simp
  next
    case False
    have "hd p \<in> set (nodes ?G)" using r by (simp add: is_root_def)
    then have "p \<in> set (all_simple_paths ?G (hd p) c)"
      using all_simple_paths_set[OF assms(1) _ False] sp l by simp
    moreover have "hd p \<in> set ?roots" using r roots_set[of ?G] by simp
    ultimately show ?thesis using dit_fold_ge(2)[of "hd p" ?roots p ?G c 0] D by simp
  qed
qed

lemma dit_attained:
  assumes "wf_graph (inheritance_graph self)"
  shows "calculate_dit self c = 0 \<or>
         (\<exists>p. root_path (inheritance_graph self) c p \<and> calculate_dit self c = int (length p) - 1)"
proof (cases "c \<in> set (nodes (inheritance_graph self))")
  case False
  then show ?thesis by (simp add: calculate_dit_fold)
next
  case True
  let ?G = "inheritance_graph self"
  let ?roots = "filter (\<lambda>node. in_degree ?G node = 0) (nodes ?G)"
  have D: "calculate_dit self c = fold (dit_step ?G c) ?roots 0"
    using True by (simp add: calculate_dit_fold)
  from dit_fold_attained[of ?G c ?roots 0] show ?thesis
  proof
    assume "fold (dit_step ?G c) ?roots 0 = 0"
    then show ?thesis using D by simp
  next
    assume "\<exists>r\<in>set ?roots. \<exists>p\<in>set (all_simple_paths ?G r c).
              fold (dit_step ?G c) ?roots 0 = int (length p) - 1"
    then obtain r p where r: "r \<in> set ?roots" and p: "p \<in> set (all_simple_paths ?G r c)"
      and e: "fold (dit_step ?G c) ?roots 0 = int (length p) - 1" by blast
    have root: "is_root ?G r" using r by (auto simp: is_root_def in_degree_zero)
    have ne: "r \<noteq> c" using p by (auto simp: all_simple_paths_def split: if_splits)
    have "r \<in> set (nodes ?G)" using root by (simp add: is_root_def)
    then have "simple_path ?G p \<and> hd p = r \<and> last p = c"
      using all_simple_paths_set[OF assms _ ne] p by simp
    then have "root_path ?G c p" using root by (simp add: root_path_def)
    then show ?thesis using e D by auto
  qed
qed

lemma dit_nonneg: "0 \<le> calculate_dit self c"
  using dit_fold_ge(1)[of 0] by (simp add: calculate_dit_fold)

lemma simple_path_last_edge:
  assumes "simple_path G p" "2 \<le> length p"
  shows "last p \<in> snd ` set (edges G)"
proof -
  obtain r q where p: "p = r # q" "q \<noteq> []" using assms(2) by (cases p) fastforce+
  have "set q \<subseteq> snd ` set (edges G)"
    using successively_targets[of G r q] assms(1) p by (simp add: simple_path_def)
  moreover have "last p \<in> set q" using p by simp
  ultimately show ?thesis by blast
qed

lemma dit_zero_no_incoming:
  assumes "wf_graph (inheritance_graph self)" "c \<notin> snd ` set (edges (inheritance_graph self))"
  shows "calculate_dit self c = 0"
proof -
  from dit_attained[OF assms(1), of c] show ?thesis
  proof
    assume "\<exists>p. root_path (inheritance_graph self) c p \<and> calculate_dit self c = int (length p) - 1"
    then obtain p where p: "root_path (inheritance_graph self) c p"
      and e: "calculate_dit self c = int (length p) - 1" by blast
    have "\<not> 2 \<le> length p"
      using simple_path_last_edge[of "inheritance_graph self" p] p assms(2) by (auto simp: root_path_def)
    moreover have "p \<noteq> []" using p by (simp add: root_path_def simple_path_def)
    ultimately have "length p = 1" by (cases p) (auto simp: not_less_eq_eq)
    then show ?thesis using e by simp
  qed simp
qed

lemma dit_ge_one:
  assumes "wf_graph (inheritance_graph self)" "edge (inheritance_graph self) b c"
    "is_root (inheritance_graph self) b"
  shows "1 \<le> calculate_dit self c"
proof -
  let ?G = "inheritance_graph self"
  have c: "c \<in> set (nodes ?G)" using assms(1,2) by (force simp: wf_graph_def edge_def)
  have "b \<noteq> c" using assms(2,3) by (force simp: is_root_def edge_def)
  then have "root_path ?G c [b, c]" using assms(2,3) by (simp add: root_path_def simple_path_def)
  then show ?thesis using dit_upper[OF assms(1) c, of "[b, c]"] by simp
qed

lemmas eval_extract =
  parse_directory_def process_ast_def CKMetrics_init_def empty_graph_def Let_def skipped_def
  resolve_bases_def List.map_filter_simps add_inheritance_def add_node_def add_edge_def set_add_def
  extract_class_def ClassInfo_init_def

lemma external_base_state_eq:
  "classes external_base_state = [(''B'', ClassInfo_init ''B'' [''External''])]"
  "inheritance_graph external_base_state = \<lparr>nodes = [''B'', ''External''], edges = [(''External'', ''B'')]\<rparr>"
  by (simp_all add: external_base_state_def external_base_file_def eval_extract)

lemmas eval_dit =
  calculate_dit_def has_node_def in_degree_def dit_step_def all_simple_paths_def successors_def Let_def

text \<open>
  C1 as stated fails: for \<^verbatim>\<open>class B(External): pass\<close> the only declared base is not
  a discovered class, yet it is a node of the graph (\<open>add_edge\<close> inserts it) and DIT is 1.
\<close>

theorem dit_external_base_counterexample:
  "map fst (classes external_base_state) = [''B''] \<and>
   map (\<lambda>(n, ci). bases ci) (classes external_base_state) = [[''External'']] \<and>
   nodes (inheritance_graph external_base_state) = [''B'', ''External''] \<and>
   calculate_dit external_base_state ''B'' = 1"
  by (simp add: external_base_state_eq ClassInfo_init_def eval_dit)

lemma family_state_eq:
  "classes family_state = [(''Parent'', ClassInfo_init ''Parent'' []), (''Child'', ClassInfo_init ''Child'' [''Parent''])]"
  "inheritance_graph family_state = \<lparr>nodes = [''Parent'', ''Child''], edges = [(''Parent'', ''Child'')]\<rparr>"
  by (simp_all add: family_state_def family_file_def eval_extract)

text \<open>
  C1, as the code has it. For every discovered class \<open>c\<close> of an analysed set of files, DIT
  is the greatest length in edges of a simple path from a root of the inheritance graph to
  \<open>c\<close>, and 0 when there is none. DIT is 0 when no processed declaration of \<open>c\<close> names a
  base other than \<open>object\<close>. Every base other than \<open>object\<close> of the class's record is a
  node of the graph with an edge to \<open>c\<close>, whether it is a discovered class or not; when
  such a base is a root, DIT is at least 1.
\<close>

theorem dit_is_longest_root_path:
  assumes "self = parse_directory fs (CKMetrics_init cf)"
    and "(c, ci) \<in> set (classes self)"
  shows "(\<forall>p. root_path (inheritance_graph self) c p \<longrightarrow> int (length p) - 1 \<le> calculate_dit self c) \<and>
     (calculate_dit self c = 0 \<or>
      (\<exists>p. root_path (inheritance_graph self) c p \<and> calculate_dit self c = int (length p) - 1)) \<and>
     ((\<forall>(f, walk)\<in>set fs. \<forall>d\<in>set walk. declares_no_base c d) \<longrightarrow> calculate_dit self c = 0) \<and>
     (\<forall>b. b \<in> set (bases ci) \<and> b \<noteq> ''object'' \<longrightarrow>
        b \<in> set (nodes (inheritance_graph self)) \<and> edge (inheritance_graph self) b c \<and>
        (is_root (inheritance_graph self) b \<longrightarrow> 1 \<le> calculate_dit self c))"
proof -
  let ?G = "inheritance_graph self"
  have inv: "ck_inv self" using assms(1) ck_inv_parse_directory[OF ck_inv_init] by simp
  then have wf: "wf_graph ?G" by (simp add: ck_inv_def)
  have c: "c \<in> set (nodes ?G)" using inv assms(2) by (auto simp: ck_inv_def)
  have e: "edge ?G b c" if "b \<in> set (bases ci)" "b \<noteq> ''object''" for b
    using inv assms(2) that by (auto simp: ck_inv_def)
  have 1: "\<forall>p. root_path ?G c p \<longrightarrow> int (length p) - 1 \<le> calculate_dit self c"
    using dit_upper[OF wf c] by blast
  have 2: "calculate_dit self c = 0 \<or>
      (\<exists>p. root_path ?G c p \<and> calculate_dit self c = int (length p) - 1)"
    by (rule dit_attained[OF wf])
  have 3: "calculate_dit self c = 0" if "\<forall>(f, walk)\<in>set fs. \<forall>d\<in>set walk. declares_no_base c d"
  proof -
    have "c \<notin> snd ` set (edges (inheritance_graph (CKMetrics_init cf)))"
      by (simp add: CKMetrics_init_def empty_graph_def)
    then have "c \<notin> snd ` set (edges ?G)"
      using no_incoming_parse_directory[OF _ that] assms(1) by simp
    then show ?thesis by (rule dit_zero_no_incoming[OF wf])
  qed
  have 4: "b \<in> set (nodes ?G) \<and> edge ?G b c \<and> (is_root ?G b \<longrightarrow> 1 \<le> calculate_dit self c)"
    if "b \<in> set (bases ci) \<and> b \<noteq> ''object''" for b
  proof -
    have ed: "edge ?G b c" using e that by simp
    then have "b \<in> set (nodes ?G)" using wf by (force simp: wf_graph_def edge_def)
    then show ?thesis using ed dit_ge_one[OF wf ed] by simp
  qed
  show ?thesis using 1 2 3 4 by blast
qed

theorem dit_is_longest_root_path_witness:
  "(''Child'', ClassInfo_init ''Child'' [''Parent'']) \<in> set (classes family_state) \<and>
   root_path (inheritance_graph family_state) ''Child'' [''Parent'', ''Child''] \<and>
   ''Parent'' \<in> set (bases (ClassInfo_init ''Child'' [''Parent''])) \<and>
   is_root (inheritance_graph family_state) ''Parent'' \<and>
   1 \<le> calculate_dit family_state ''Child'' \<and>
   calculate_dit family_state ''Child'' = 1 \<and>
   (''Parent'', ClassInfo_init ''Parent'' []) \<in> set (classes family_state) \<and>
   list_all (declares_no_base ''Parent'') family_file \<and>
   calculate_dit family_state ''Parent'' = 0"
proof -
  have m1: "(''Child'', ClassInfo_init ''Child'' [''Parent'']) \<in> set (classes family_state)"
    and m2: "(''Parent'', ClassInfo_init ''Parent'' []) \<in> set (classes family_state)"
    by (simp_all add: family_state_eq)
  have rp: "root_path (inheritance_graph family_state) ''Child'' [''Parent'', ''Child'']"
    by (simp add: family_state_eq root_path_def simple_path_def is_root_def edge_def)
  have b: "''Parent'' \<in> set (bases (ClassInfo_init ''Child'' [''Parent'']))"
    by (simp add: ClassInfo_init_def)
  have r: "is_root (inheritance_graph family_state) ''Parent''"
    by (simp add: family_state_eq is_root_def)
  have nb: "list_all (declares_no_base ''Parent'') family_file"
    by (simp add: family_file_def resolve_bases_def List.map_filter_simps)
  then have nb': "\<forall>(f, walk)\<in>set [(''family.py'', family_file)]. \<forall>d\<in>set walk. declares_no_base ''Parent'' d"
    by (simp add: list_all_iff)
  have v: "calculate_dit family_state ''Child'' = 1"
    by (simp add: family_state_eq eval_dit)
  have s: "family_state = parse_directory [(''family.py'', family_file)] (CKMetrics_init None)"
    by (simp add: family_state_def)
  show ?thesis
    using dit_is_longest_root_path[OF s m1] dit_is_longest_root_path[OF s m2] m1 m2 rp b r nb nb' v
    by blast
qed

section \<open>Repeated declarations of a class name\<close>

lemma process_ast_nodes: "process_ast walk f self = process_nodes (map (Pair f) walk) self"
  unfolding process_ast_def process_nodes_def by (induction walk arbitrary: self) simp_all

lemma process_nodes_append: "process_nodes (xs @ ys) self = process_nodes ys (process_nodes xs self)"
  by (simp add: process_nodes_def)

lemma parse_directory_nodes: "parse_directory fs self = process_nodes (walk_items fs) self"
proof (induction fs arbitrary: self)
  case Nil
  show ?case by (simp add: parse_directory_def process_nodes_def walk_items_def)
next
  case (Cons a fs)
  obtain f walk where a: "a = (f, walk)" by (cases a)
  have "parse_directory (a # fs) self = parse_directory fs (process_ast walk f self)"
    by (simp add: parse_directory_def a)
  also have "\<dots> = process_nodes (walk_items fs) (process_nodes (map (Pair f) walk) self)"
    by (simp add: Cons process_ast_nodes)
  also have "\<dots> = process_nodes (walk_items (a # fs)) self"
    by (simp add: walk_items_def a process_nodes_append)
  finally show ?case .
qed

lemma class_filter_process_node: "class_filter (process_node f d self) = class_filter self"
  by (cases f d self rule: process_node_cases) simp_all

lemma class_filter_process_nodes: "class_filter (process_nodes items self) = class_filter self"
  unfolding process_nodes_def
  by (induction items arbitrary: self) (auto simp: class_filter_process_node)

lemma skipped_process_nodes: "skipped (process_nodes items self) n = skipped self n"
  by (simp add: skipped_def class_filter_process_nodes)

lemma ck_inv_process_nodes: "ck_inv self \<Longrightarrow> ck_inv (process_nodes items self)"
  unfolding process_nodes_def
  by (induction items arbitrary: self) (auto simp: ck_inv_process_node)

lemma edges_mono_process_node:
  "set (edges (inheritance_graph self)) \<subseteq> set (edges (inheritance_graph (process_node f d self)))"
  by (cases f d self rule: process_node_cases) (auto simp: edges_add_inheritance)

lemma edges_mono_process_nodes:
  "set (edges (inheritance_graph self)) \<subseteq> set (edges (inheritance_graph (process_nodes items self)))"
  unfolding process_nodes_def
proof (induction items arbitrary: self)
  case Nil
  show ?case by simp
next
  case (Cons a items)
  obtain f d where a: "a = (f, d)" by (cases a)
  show ?case using edges_mono_process_node[of self f d] Cons[of "process_node f d self"]
    by (auto simp: a)
qed

lemma declared_process_node:
  assumes "\<not> skipped self n"
  shows "map_of (classes (process_node f (ClassDef n nb kws body decs) self)) n
           = Some (extract_class n (resolve_bases nb) body)"
    and "map_of (file_paths (process_node f (ClassDef n nb kws body decs) self)) n = Some f"
    and "\<And>b. b \<in> set (resolve_bases nb) \<Longrightarrow> b \<noteq> ''object'' \<Longrightarrow>
           (b, n) \<in> set (edges (inheritance_graph (process_node f (ClassDef n nb kws body decs) self)))"
  using assms by (simp_all add: Let_def map_of_dict_set edges_add_inheritance)

lemma other_process_node:
  assumes "\<not> declares n d"
  shows "map_of (classes (process_node f d self)) n = map_of (classes self) n \<and>
         map_of (file_paths (process_node f d self)) n = map_of (file_paths self) n"
proof (cases f d self rule: process_node_cases)
  case same
  then show ?thesis by simp
next
  case (cls n' nb kws body decs)
  then have "n' \<noteq> n" using assms by auto
  then show ?thesis using cls by (simp add: map_of_dict_set)
qed

lemma other_process_nodes:
  assumes "\<forall>(f, d)\<in>set items. \<not> declares n d"
  shows "map_of (classes (process_nodes items self)) n = map_of (classes self) n"
    and "map_of (file_paths (process_nodes items self)) n = map_of (file_paths self) n"
  using assms unfolding process_nodes_def
  by (induction items arbitrary: self) (auto simp: other_process_node)

lemma one_record:
  "distinct (map fst d) \<Longrightarrow> map_of d k = Some v \<Longrightarrow> filter (\<lambda>e. fst e = k) d = [(k, v)]"
proof (induction d)
  case Nil
  then show ?case by simp
next
  case (Cons p d)
  show ?case
  proof (cases "fst p = k")
    case True
    then have "filter (\<lambda>e. fst e = k) d = []"
      using Cons.prems(1) by (auto simp: filter_empty_conv image_iff)
    then show ?thesis using True Cons.prems(2) by (cases p) auto
  next
    case False
    then show ?thesis using Cons by (cases p) auto
  qed
qed

lemma class_summary_fold:
  "distinct (map fst cs) \<Longrightarrow> fst ` set cs \<inter> fst ` set (class_summary r) = {} \<Longrightarrow>
   class_summary (fold (add_class_result built_ins self) cs r)
     = class_summary r @ map (\<lambda>(n, ci). (n, calculate_class_metrics built_ins self n ci)) cs"
proof (induction cs arbitrary: r)
  case Nil
  show ?case by simp
next
  case (Cons p cs)
  obtain n ci where p: "p = (n, ci)" by (cases p)
  let ?r' = "add_class_result built_ins self p r"
  have notin: "n \<notin> fst ` set (class_summary r)" using Cons.prems(2) p by auto
  have cs': "class_summary ?r' = class_summary r @ [(n, calculate_class_metrics built_ins self n ci)]"
    by (simp add: add_class_result_def Let_def p dict_set_append[OF notin])
  have d: "distinct (map fst cs)" and n: "n \<notin> fst ` set cs" using Cons.prems(1) p by auto
  have disj: "fst ` set cs \<inter> fst ` set (class_summary ?r') = {}"
    using Cons.prems(2) n p cs' by auto
  show ?case using Cons.IH[OF d disj] cs' by (simp add: p)
qed

lemma class_summary_calculate_metrics:
  "distinct (map fst (classes self)) \<Longrightarrow>
   class_summary (calculate_metrics built_ins self)
     = map (\<lambda>(n, ci). (n, calculate_class_metrics built_ins self n ci)) (classes self)"
  using class_summary_fold[of "classes self" "\<lparr>files = [], class_summary = []\<rparr>" built_ins self]
  by (simp add: calculate_metrics_def)

lemma map_of_class_summary:
  "distinct (map fst (classes self)) \<Longrightarrow> map_of (classes self) n = Some ci \<Longrightarrow>
   map_of (class_summary (calculate_metrics built_ins self)) n
     = Some (calculate_class_metrics built_ins self n ci)"
proof -
  assume d: "distinct (map fst (classes self))" and m: "map_of (classes self) n = Some ci"
  have "map_of (map (\<lambda>(n, ci). (n, calculate_class_metrics built_ins self n ci)) cs) n
        = Some (calculate_class_metrics built_ins self n ci)" if "map_of cs n = Some ci" for cs
    using that by (induction cs) (auto split: if_splits)
  then show ?thesis using m by (simp add: class_summary_calculate_metrics[OF d])
qed

lemma noc_ge_one:
  assumes "wf_graph (inheritance_graph self)" "edge (inheritance_graph self) b c"
  shows "1 \<le> calculate_noc self b"
proof -
  have b: "b \<in> set (nodes (inheritance_graph self))"
    using assms by (force simp: wf_graph_def edge_def)
  have "c \<in> set (successors (inheritance_graph self) b)"
    using assms(2) by (simp add: set_successors)
  then have "successors (inheritance_graph self) b \<noteq> []" by auto
  then have "1 \<le> length (successors (inheritance_graph self) b)"
    by (simp add: Suc_le_eq)
  then show ?thesis using b by (simp add: calculate_noc_def has_node_def)
qed

lemma distinct_edges_add_edge: "distinct (edges G) \<Longrightarrow> distinct (edges (add_edge G u v))"
  by (simp add: add_edge_def Let_def add_node_def distinct_set_add)

lemma distinct_edges_add_inheritance:
  "distinct (edges G) \<Longrightarrow> distinct (edges (add_inheritance n bs G))"
proof -
  have "distinct (edges (fold (\<lambda>base G. if base \<noteq> ''object'' then add_edge G base n else G) bs H))"
    if "distinct (edges H)" for H
    using that by (induction bs arbitrary: H) (simp_all add: distinct_edges_add_edge)
  then show "distinct (edges G) \<Longrightarrow> ?thesis"
    by (simp add: add_inheritance_def edges_add_node)
qed

lemma distinct_edges_process_node:
  "distinct (edges (inheritance_graph self)) \<Longrightarrow>
   distinct (edges (inheritance_graph (process_node f d self)))"
  by (cases f d self rule: process_node_cases) (simp_all add: distinct_edges_add_inheritance)

lemma distinct_edges_process_nodes:
  "distinct (edges (inheritance_graph self)) \<Longrightarrow>
   distinct (edges (inheritance_graph (process_nodes items self)))"
  unfolding process_nodes_def
proof (induction items arbitrary: self)
  case Nil
  then show ?case by simp
next
  case (Cons a items)
  have "distinct (edges (inheritance_graph (process_node (fst a) (snd a) self)))"
    using Cons.prems by (rule distinct_edges_process_node)
  then show ?case using Cons.IH[of "process_node (fst a) (snd a) self"] by (simp add: case_prod_unfold)
qed

lemma distinct_edges_parse_directory:
  "distinct (edges (inheritance_graph (parse_directory fs (CKMetrics_init cf))))"
  unfolding parse_directory_nodes
  by (rule distinct_edges_process_nodes) (simp add: CKMetrics_init_def empty_graph_def)

lemma distinct_successors: "distinct (edges G) \<Longrightarrow> distinct (successors G b)"
proof -
  assume d: "distinct (edges G)"
  have "inj_on snd (set (filter (\<lambda>e. fst e = b) (edges G)))"
    by (rule inj_onI) (auto simp: prod_eq_iff)
  moreover have "distinct (filter (\<lambda>e. fst e = b) (edges G))" using d by simp
  ultimately show ?thesis unfolding successors_def by (simp add: distinct_map)
qed

lemma noc_card:
  assumes wf: "wf_graph (inheritance_graph self)" and d: "distinct (edges (inheritance_graph self))"
  shows "calculate_noc self b = int (card {c. edge (inheritance_graph self) b c})"
proof (cases "b \<in> set (nodes (inheritance_graph self))")
  case True
  have "length (successors (inheritance_graph self) b) = card (set (successors (inheritance_graph self) b))"
    using distinct_successors[OF d, of b] by (simp add: distinct_card)
  then show ?thesis using True by (simp add: calculate_noc_def has_node_def set_successors)
next
  case False
  have "\<not> edge (inheritance_graph self) b c" for c
  proof
    assume "edge (inheritance_graph self) b c"
    then have "fst (b, c) \<in> fst ` set (edges (inheritance_graph self))"
      unfolding edge_def by (rule imageI)
    then have "b \<in> set (nodes (inheritance_graph self))" using wf unfolding wf_graph_def by auto
    then show False using False by simp
  qed
  then have "{c. edge (inheritance_graph self) b c} = {}" by simp
  then show ?thesis using False by (simp add: calculate_noc_def has_node_def)
qed

lemma root_path_extend:
  assumes "root_path G b p" "edge G b n" "n \<notin> set p"
  shows "root_path G n (p @ [n])"
proof -
  have p: "p \<noteq> []" "distinct p" "successively (edge G) p" "is_root G (hd p)" "last p = b"
    using assms(1) by (simp_all add: root_path_def simple_path_def)
  have "successively (edge G) (p @ [n])"
    using p(1,3,5) assms(2) by (simp add: successively_append_iff)
  then show ?thesis using p assms(3) by (simp add: root_path_def simple_path_def)
qed

lemma dit_through_base:
  assumes wf: "wf_graph (inheritance_graph self)" and e: "edge (inheritance_graph self) b n"
    and p: "root_path (inheritance_graph self) b p" and n: "n \<notin> set p"
  shows "root_path (inheritance_graph self) n (p @ [n]) \<and> int (length p) \<le> calculate_dit self n"
proof -
  have r: "root_path (inheritance_graph self) n (p @ [n])" using p e n by (rule root_path_extend)
  have "snd (b, n) \<in> snd ` set (edges (inheritance_graph self))"
    using e unfolding edge_def by (rule imageI)
  then have "n \<in> set (nodes (inheritance_graph self))" using wf unfolding wf_graph_def by auto
  from dit_upper[OF wf this r] show ?thesis using r by simp
qed

lemma summary_entry:
  assumes "distinct (map fst (classes self))" "(c, ci) \<in> set (classes self)"
  shows "map_of (class_summary (calculate_metrics built_ins self)) c
           = Some (calculate_class_metrics built_ins self c ci) \<and>
         dit (calculate_class_metrics built_ins self c ci) = calculate_dit self c \<and>
         noc (calculate_class_metrics built_ins self c ci) = calculate_noc self c"
proof -
  have "map_of (classes self) c = Some ci" using assms by simp
  from map_of_class_summary[OF assms(1) this] show ?thesis
    by (simp add: calculate_class_metrics_def Let_def)
qed

text \<open>
  C10. Let two declarations of the class \<open>n\<close> be processed, anywhere in the analysed files,
  the second being the last declaration of \<open>n\<close>, and \<open>n\<close> not filtered out. Then the class
  table, the index of file paths and the class summary each hold exactly one entry for
  \<open>n\<close>, that of the second declaration; and for every base \<open>b\<close> other than \<open>object\<close> of
  the first declaration the edge to \<open>n\<close> is still in the graph. It counts in the results:
  the NOC of \<open>b\<close> is the number of nodes that \<open>b\<close> has an edge to, \<open>n\<close> among them; every
  root path of \<open>b\<close> that avoids \<open>n\<close> extends by this edge to a root path of \<open>n\<close>, so
  that the DIT of \<open>n\<close> is at least the depth of \<open>b\<close> on that path plus 1 (at least 1 when
  \<open>b\<close> is a root); the DIT of \<open>n\<close> is the greatest length of its root paths in this graph;
  and the \<open>dit\<close> and \<open>noc\<close> that the class summary reports for a class are these values.
\<close>

theorem duplicate_declarations:
  assumes "walk_items fs = pre @ [(f1, ClassDef n nb1 k1 body1 dec1)] @ mid @
              [(f2, ClassDef n nb2 k2 body2 dec2)] @ post"
    and "\<forall>(f, d)\<in>set post. \<not> declares n d"
    and "\<not> skipped (CKMetrics_init cf) n"
    and "final = parse_directory fs (CKMetrics_init cf)"
  shows "filter (\<lambda>e. fst e = n) (classes final) = [(n, extract_class n (resolve_bases nb2) body2)] \<and>
     filter (\<lambda>e. fst e = n) (file_paths final) = [(n, f2)] \<and>
     filter (\<lambda>e. fst e = n) (class_summary (calculate_metrics built_ins final))
       = [(n, calculate_class_metrics built_ins final n (extract_class n (resolve_bases nb2) body2))] \<and>
     (\<forall>b. b \<in> set (resolve_bases nb1) \<and> b \<noteq> ''object'' \<longrightarrow>
        edge (inheritance_graph final) b n \<and> 1 \<le> calculate_noc final b \<and>
        (is_root (inheritance_graph final) b \<longrightarrow> 1 \<le> calculate_dit final n)) \<and>
     (\<forall>b. b \<in> set (resolve_bases nb1) \<and> b \<noteq> ''object'' \<longrightarrow>
        calculate_noc final b = int (card {c. edge (inheritance_graph final) b c}) \<and>
        n \<in> {c. edge (inheritance_graph final) b c} \<and>
        (\<forall>p. root_path (inheritance_graph final) b p \<and> n \<notin> set p \<longrightarrow>
           root_path (inheritance_graph final) n (p @ [n]) \<and> int (length p) \<le> calculate_dit final n)) \<and>
     (\<forall>q. root_path (inheritance_graph final) n q \<longrightarrow> int (length q) - 1 \<le> calculate_dit final n) \<and>
     (calculate_dit final n = 0 \<or>
      (\<exists>q. root_path (inheritance_graph final) n q \<and> calculate_dit final n = int (length q) - 1)) \<and>
     (\<forall>c ci. (c, ci) \<in> set (classes final) \<longrightarrow>
        map_of (class_summary (calculate_metrics built_ins final)) c
          = Some (calculate_class_metrics built_ins final c ci) \<and>
        dit (calculate_class_metrics built_ins final c ci) = calculate_dit final c \<and>
        noc (calculate_class_metrics built_ins final c ci) = calculate_noc final c)"
proof -
  let ?d1 = "ClassDef n nb1 k1 body1 dec1" and ?d2 = "ClassDef n nb2 k2 body2 dec2"
  let ?ci = "extract_class n (resolve_bases nb2) body2"
  let ?G = "inheritance_graph final"
  define s0 where "s0 = process_nodes pre (CKMetrics_init cf)"
  define s1 where "s1 = process_node f1 ?d1 s0"
  define s2 where "s2 = process_nodes mid s1"
  define s3 where "s3 = process_node f2 ?d2 s2"
  have final: "final = process_nodes post s3"
    by (simp add: assms(1,4) parse_directory_nodes process_nodes_append s0_def s1_def s2_def s3_def
        process_nodes_def)
  have sk0: "\<not> skipped s0 n" using assms(3) by (simp add: s0_def skipped_process_nodes)
  have "class_filter s1 = class_filter s0" unfolding s1_def by (rule class_filter_process_node)
  then have sk2: "\<not> skipped s2 n" using sk0 by (simp add: s2_def skipped_def class_filter_process_nodes)
  have inv: "ck_inv final"
    using assms(4) ck_inv_parse_directory[OF ck_inv_init] by simp
  then have wf: "wf_graph ?G" and dc: "distinct (map fst (classes final))"
    and df: "distinct (map fst (file_paths final))" by (simp_all add: ck_inv_def)
  have de: "distinct (edges ?G)" unfolding assms(4) by (rule distinct_edges_parse_directory)
  have c3: "map_of (classes s3) n = Some ?ci" and f3: "map_of (file_paths s3) n = Some f2"
    unfolding s3_def using declared_process_node(1,2)[OF sk2] by simp_all
  have c: "map_of (classes final) n = Some ?ci" and f: "map_of (file_paths final) n = Some f2"
    using other_process_nodes[OF assms(2), of s3] c3 f3 final by simp_all
  have 1: "filter (\<lambda>e. fst e = n) (classes final) = [(n, ?ci)]"
    by (rule one_record[OF dc c])
  have 2: "filter (\<lambda>e. fst e = n) (file_paths final) = [(n, f2)]"
    by (rule one_record[OF df f])
  have "distinct (map fst (class_summary (calculate_metrics built_ins final)))"
    using dc by (simp add: class_summary_calculate_metrics[OF dc] comp_def case_prod_unfold)
  then have 3: "filter (\<lambda>e. fst e = n) (class_summary (calculate_metrics built_ins final))
       = [(n, calculate_class_metrics built_ins final n ?ci)]"
    using map_of_class_summary[OF dc c] by (intro one_record)
  have e: "edge ?G b n" if b: "b \<in> set (resolve_bases nb1) \<and> b \<noteq> ''object''" for b
  proof -
    have "(b, n) \<in> set (edges (inheritance_graph s1))"
      unfolding s1_def using declared_process_node(3)[OF sk0] b by simp
    then have "(b, n) \<in> set (edges (inheritance_graph s2))"
      using edges_mono_process_nodes[of s1 mid] by (auto simp: s2_def)
    then have "(b, n) \<in> set (edges (inheritance_graph s3))"
      using edges_mono_process_node[of s2 f2 ?d2] by (auto simp: s3_def)
    then have "(b, n) \<in> set (edges ?G)"
      using edges_mono_process_nodes[of s3 post] final by auto
    then show ?thesis by (simp add: edge_def)
  qed
  have 4: "\<forall>b. b \<in> set (resolve_bases nb1) \<and> b \<noteq> ''object'' \<longrightarrow>
        edge ?G b n \<and> 1 \<le> calculate_noc final b \<and> (is_root ?G b \<longrightarrow> 1 \<le> calculate_dit final n)"
    using e noc_ge_one[OF wf] dit_ge_one[OF wf] by blast
  have 5: "\<forall>b. b \<in> set (resolve_bases nb1) \<and> b \<noteq> ''object'' \<longrightarrow>
        calculate_noc final b = int (card {c. edge ?G b c}) \<and>
        n \<in> {c. edge ?G b c} \<and>
        (\<forall>p. root_path ?G b p \<and> n \<notin> set p \<longrightarrow>
           root_path ?G n (p @ [n]) \<and> int (length p) \<le> calculate_dit final n)"
  proof (intro allI impI conjI)
    fix b assume b: "b \<in> set (resolve_bases nb1) \<and> b \<noteq> ''object''"
    show "calculate_noc final b = int (card {c. edge ?G b c})" using wf de by (rule noc_card)
    show "n \<in> {c. edge ?G b c}" using e[OF b] by simp
    fix p assume p: "root_path ?G b p \<and> n \<notin> set p"
    have p1: "root_path ?G b p" and p2: "n \<notin> set p" using p by simp_all
    have "root_path ?G n (p @ [n]) \<and> int (length p) \<le> calculate_dit final n"
      using wf e[OF b] p1 p2 by (rule dit_through_base)
    then show "root_path ?G n (p @ [n])" and "int (length p) \<le> calculate_dit final n" by simp_all
  qed
  have 6: "\<forall>q. root_path ?G n q \<longrightarrow> int (length q) - 1 \<le> calculate_dit final n"
  proof (intro allI impI)
    fix q assume q: "root_path ?G n q"
    have "n \<in> set (nodes ?G)" using inv c by (auto simp: ck_inv_def dest: map_of_SomeD)
    then show "int (length q) - 1 \<le> calculate_dit final n" using wf q by (intro dit_upper)
  qed
  have 7: "calculate_dit final n = 0 \<or> (\<exists>q. root_path ?G n q \<and> calculate_dit final n = int (length q) - 1)"
    using wf by (rule dit_attained)
  have 8: "\<forall>c ci. (c, ci) \<in> set (classes final) \<longrightarrow>
        map_of (class_summary (calculate_metrics built_ins final)) c
          = Some (calculate_class_metrics built_ins final c ci) \<and>
        dit (calculate_class_metrics built_ins final c ci) = calculate_dit final c \<and>
        noc (calculate_class_metrics built_ins final c ci) = calculate_noc final c"
    using summary_entry[OF dc] by blast
  from 1 2 3 4 5 6 7 8 show ?thesis by (intro conjI)
qed

lemma duplicate_state_eq:
  "classes duplicate_state =
     [(''R'', ClassInfo_init ''R'' []), (''B'', ClassInfo_init ''B'' [''R'']),
      (''A'', ClassInfo_init ''A'' []), (''C'', ClassInfo_init ''C'' [''B''])]"
  "file_paths duplicate_state =
     [(''R'', ''one.py''), (''B'', ''one.py''), (''A'', ''two.py''), (''C'', ''one.py'')]"
  "inheritance_graph duplicate_state =
     \<lparr>nodes = [''R'', ''B'', ''A'', ''C''], edges = [(''R'', ''B''), (''B'', ''A''), (''B'', ''C'')]\<rparr>"
  by (simp_all add: duplicate_state_def duplicate_files_def eval_extract)

theorem duplicate_declarations_witness:
  "walk_items duplicate_files =
     [(''one.py'', ClassDef ''R'' [] [] [OtherStmt []] []),
      (''one.py'', ClassDef ''B'' [Name ''R''] [] [OtherStmt []] [])] @
     [(''one.py'', ClassDef ''A'' [Name ''B''] [] [OtherStmt []] [])] @
     [(''one.py'', ClassDef ''C'' [Name ''B''] [] [OtherStmt []] [])] @
     [(''two.py'', ClassDef ''A'' [] [] [OtherStmt []] [])] @ [] \<and>
   \<not> skipped (CKMetrics_init None) ''A'' \<and>
   ''B'' \<in> set (resolve_bases [Name ''B'']) \<and>
   filter (\<lambda>e. fst e = ''A'') (classes duplicate_state) = [(''A'', ClassInfo_init ''A'' [])] \<and>
   bases (ClassInfo_init ''A'' []) = [] \<and>
   filter (\<lambda>e. fst e = ''A'') (file_paths duplicate_state) = [(''A'', ''two.py'')] \<and>
   edge (inheritance_graph duplicate_state) ''B'' ''A'' \<and>
   root_path (inheritance_graph duplicate_state) ''B'' [''R'', ''B''] \<and>
   root_path (inheritance_graph duplicate_state) ''A'' [''R'', ''B'', ''A''] \<and>
   2 \<le> calculate_dit duplicate_state ''A'' \<and>
   calculate_dit duplicate_state ''A'' = 2 \<and>
   calculate_noc duplicate_state ''B'' = 2 \<and>
   card {c. edge (inheritance_graph duplicate_state) ''B'' c} = 2 \<and>
   dit (calculate_class_metrics {} duplicate_state ''A'' (ClassInfo_init ''A'' [])) = 2 \<and>
   noc (calculate_class_metrics {} duplicate_state ''B'' (ClassInfo_init ''B'' [''R''])) = 2"
proof -
  have w: "walk_items duplicate_files =
     [(''one.py'', ClassDef ''R'' [] [] [OtherStmt []] []),
      (''one.py'', ClassDef ''B'' [Name ''R''] [] [OtherStmt []] [])] @
     [(''one.py'', ClassDef ''A'' [Name ''B''] [] [OtherStmt []] [])] @
     [(''one.py'', ClassDef ''C'' [Name ''B''] [] [OtherStmt []] [])] @
     [(''two.py'', ClassDef ''A'' [] [] [OtherStmt []] [])] @ []"
    by (simp add: walk_items_def duplicate_files_def)
  have p: "\<forall>(f, d)\<in>set []. \<not> declares ''A'' d" by simp
  have sk: "\<not> skipped (CKMetrics_init None) ''A''" by (simp add: skipped_def CKMetrics_init_def)
  have s: "duplicate_state = parse_directory duplicate_files (CKMetrics_init None)"
    by (simp add: duplicate_state_def)
  have b: "''B'' \<in> set (resolve_bases [Name ''B'']) \<and> ''B'' \<noteq> ''object''"
    by (simp add: resolve_bases_def List.map_filter_simps)
  have x: "extract_class ''A'' (resolve_bases []) [OtherStmt []] = ClassInfo_init ''A'' []"
    by (simp add: extract_class_def resolve_bases_def List.map_filter_simps)
  have rp: "root_path (inheritance_graph duplicate_state) ''B'' [''R'', ''B''] \<and> ''A'' \<notin> set [''R'', ''B'']"
    by (simp add: duplicate_state_eq root_path_def simple_path_def is_root_def edge_def)
  have v: "calculate_noc duplicate_state ''B'' = 2" "calculate_dit duplicate_state ''A'' = 2"
    "bases (ClassInfo_init ''A'' []) = []"
    by (simp_all add: duplicate_state_eq calculate_noc_def eval_dit ClassInfo_init_def)
  have m: "(''A'', ClassInfo_init ''A'' []) \<in> set (classes duplicate_state)"
    "(''B'', ClassInfo_init ''B'' [''R'']) \<in> set (classes duplicate_state)"
    by (simp_all add: duplicate_state_eq)
  note T = duplicate_declarations[OF w p sk s, of "{}", unfolded x]
  have t1: "filter (\<lambda>e. fst e = ''A'') (classes duplicate_state) = [(''A'', ClassInfo_init ''A'' [])]"
    and t2: "filter (\<lambda>e. fst e = ''A'') (file_paths duplicate_state) = [(''A'', ''two.py'')]"
    using T by simp_all
  have t5: "calculate_noc duplicate_state ''B'' = int (card {c. edge (inheritance_graph duplicate_state) ''B'' c}) \<and>
        ''A'' \<in> {c. edge (inheritance_graph duplicate_state) ''B'' c} \<and>
        (\<forall>p. root_path (inheritance_graph duplicate_state) ''B'' p \<and> ''A'' \<notin> set p \<longrightarrow>
           root_path (inheritance_graph duplicate_state) ''A'' (p @ [''A'']) \<and>
           int (length p) \<le> calculate_dit duplicate_state ''A'')"
    using T b by blast
  then have t6: "root_path (inheritance_graph duplicate_state) ''A'' ([''R'', ''B''] @ [''A'']) \<and>
           int (length [''R'', ''B'']) \<le> calculate_dit duplicate_state ''A''"
    using rp by blast
  have t8: "dit (calculate_class_metrics {} duplicate_state ''A'' (ClassInfo_init ''A'' [])) = calculate_dit duplicate_state ''A''"
    "noc (calculate_class_metrics {} duplicate_state ''B'' (ClassInfo_init ''B'' [''R''])) = calculate_noc duplicate_state ''B''"
    using T m by blast+
  have card: "card {c. edge (inheritance_graph duplicate_state) ''B'' c} = 2"
    using t5 v(1) by simp
  show ?thesis
    using w sk b t1 t2 t5 t6 t8 rp v card by simp
qed

section \<open>Weighted methods per class\<close>

lemma class_ok_init: "class_ok (ClassInfo_init n bs)"
  by (simp add: class_ok_def ClassInfo_init_def)

lemma class_ok_process_method:
  assumes "class_ok ci" "wf_stmt item"
  shows "class_ok (process_method m item ci)"
  using assms complexity_ge_one[OF assms(2)]
  by (auto simp: class_ok_def process_method_def Let_def distinct_set_add set_set_add map_of_dict_set)

lemma class_ok_assign_target: "class_ok ci \<Longrightarrow> class_ok (assign_target e ci)"
  by (induction e ci rule: assign_target.induct) (simp_all add: class_ok_def)

lemma class_ok_assign_targets: "class_ok ci \<Longrightarrow> class_ok (fold assign_target ts ci)"
  by (induction ts arbitrary: ci) (simp_all add: class_ok_assign_target)

lemma class_ok_process_item:
  assumes "class_ok ci" "wf_stmt item"
  shows "class_ok (process_item item ci)"
proof (cases item)
  case (FunctionDef n args body decs)
  then show ?thesis using class_ok_process_method[OF assms] by simp
next
  case (AsyncFunctionDef n args body decs)
  then show ?thesis using class_ok_process_method[OF assms] by simp
qed (use assms(1) in \<open>simp_all add: class_ok_assign_target class_ok_assign_targets\<close>)

lemma class_ok_extract_class: "list_all wf_stmt body \<Longrightarrow> class_ok (extract_class n bs body)"
proof -
  have "class_ok (fold process_item body ci)" if "class_ok ci" "list_all wf_stmt body" for ci
    using that by (induction body arbitrary: ci) (simp_all add: class_ok_process_item)
  then show "list_all wf_stmt body \<Longrightarrow> ?thesis"
    by (simp add: extract_class_def class_ok_init)
qed



lemma dict_set_cases: "(k', v') \<in> set (dict_set d k v) \<Longrightarrow> (k', v') = (k, v) \<or> (k', v') \<in> set d"
  by (induction d) (auto split: if_splits)

lemma classes_ok_process_node:
  assumes inv: "\<And>n ci. (n, ci) \<in> set (classes self) \<Longrightarrow> class_ok ci"
    and wf: "wf_stmt d"
    and m: "(n, ci) \<in> set (classes (process_node f d self))"
  shows "class_ok ci"
proof (cases f d self rule: process_node_cases)
  case same
  then show ?thesis using inv m by simp
next
  case (cls c nb kws body decs)
  have e: "class_ok (extract_class c (resolve_bases nb) body)"
    using wf cls(1) by (simp add: class_ok_extract_class)
  have "classes (process_node f d self) = dict_set (classes self) c (extract_class c (resolve_bases nb) body)"
    by (simp add: cls(3))
  then have "(n, ci) \<in> set (dict_set (classes self) c (extract_class c (resolve_bases nb) body))"
    using m by simp
  then have "(n, ci) = (c, extract_class c (resolve_bases nb) body) \<or> (n, ci) \<in> set (classes self)"
    by (rule dict_set_cases)
  then show ?thesis
  proof
    assume "(n, ci) = (c, extract_class c (resolve_bases nb) body)"
    then show ?thesis using e by simp
  next
    assume "(n, ci) \<in> set (classes self)"
    then show ?thesis by (rule inv)
  qed
qed

lemma classes_ok_process_ast:
  assumes "\<And>n ci. (n, ci) \<in> set (classes self) \<Longrightarrow> class_ok ci"
    and "list_all wf_stmt walk"
    and "(n, ci) \<in> set (classes (process_ast walk f self))"
  shows "class_ok ci"
  using assms unfolding process_ast_def
proof (induction walk arbitrary: self)
  case Nil
  then show ?case by simp
next
  case (Cons d walk)
  have wf: "wf_stmt d" "list_all wf_stmt walk" using Cons.prems(2) by simp_all
  have step: "class_ok ci'" if "(n', ci') \<in> set (classes (process_node f d self))" for n' ci'
    using Cons.prems(1) wf(1) that by (rule classes_ok_process_node)
  have "(n, ci) \<in> set (classes (fold (process_node f) walk (process_node f d self)))"
    using Cons.prems(3) by simp
  with step wf(2) show ?case by (rule Cons.IH)
qed

lemma classes_ok_parse_directory:
  assumes "\<And>n ci. (n, ci) \<in> set (classes self) \<Longrightarrow> class_ok ci"
    and "list_all (\<lambda>file. list_all wf_stmt (snd file)) fs"
    and "(n, ci) \<in> set (classes (parse_directory fs self))"
  shows "class_ok ci"
  using assms unfolding parse_directory_def
proof (induction fs arbitrary: self)
  case Nil
  then show ?case by simp
next
  case (Cons a fs)
  have wf: "list_all wf_stmt (snd a)" "list_all (\<lambda>file. list_all wf_stmt (snd file)) fs"
    using Cons.prems(2) by simp_all
  have step: "class_ok ci'" if "(n', ci') \<in> set (classes (process_ast (snd a) (fst a) self))" for n' ci'
    using Cons.prems(1) wf(1) that by (rule classes_ok_process_ast)
  have "(n, ci) \<in> set (classes (fold (\<lambda>(file_path, walk). process_ast walk file_path) fs
          (process_ast (snd a) (fst a) self)))"
    using Cons.prems(3) by (cases a) simp
  with step wf(2) show ?case by (rule Cons.IH)
qed

lemma wmc_sum:
  "distinct (methods ci) \<Longrightarrow>
   calculate_wmc ci = (\<Sum>m\<in>set (methods ci). dict_get (method_complexity ci) m 1)"
  unfolding calculate_wmc_def by (rule sum_list_distinct_conv_sum_set)

lemma sum_list_ge_length:
  "(\<And>x. x \<in> set xs \<Longrightarrow> 1 \<le> f x) \<Longrightarrow> int (length xs) \<le> sum_list (map f xs)"
proof (induction xs)
  case Nil
  show ?case by simp
next
  case (Cons a xs)
  have "1 \<le> f a" using Cons.prems by simp
  moreover have "int (length xs) \<le> sum_list (map f xs)" using Cons by simp
  ultimately show ?case by simp
qed

lemma wmc_ge_methods: "class_ok ci \<Longrightarrow> int (card (set (methods ci))) \<le> calculate_wmc ci"
proof -
  assume ok: "class_ok ci"
  have "1 \<le> dict_get (method_complexity ci) m 1" if mem: "m \<in> set (methods ci)" for m
  proof -
    obtain c where "map_of (method_complexity ci) m = Some c" "1 \<le> c"
      using ok mem unfolding class_ok_def by blast
    then show ?thesis by (simp add: dict_get_def)
  qed
  then have "int (length (methods ci)) \<le> calculate_wmc ci"
    unfolding calculate_wmc_def by (rule sum_list_ge_length)
  moreover have "card (set (methods ci)) = length (methods ci)"
    using ok by (simp add: class_ok_def distinct_card)
  ultimately show ?thesis by simp
qed

lemma wmc_field: "wmc (calculate_class_metrics built_ins self n ci) = calculate_wmc ci"
  by (simp add: calculate_class_metrics_def Let_def)

text \<open>
  C7. For every class extracted from parsed files, WMC is the sum over its methods of
  the recorded complexity of the method, a method without a recorded complexity counting
  as 1; WMC is at least the number of methods of the class; and this is the value reported
  in the \<open>wmc\<close> field of the class. The trees are those a parser yields (a boolean operation
  has at least two operands), so that every recorded complexity is at least 1.
\<close>

theorem wmc_sum_and_bound:
  assumes "self = parse_directory fs (CKMetrics_init cf)"
    and "list_all (\<lambda>file. list_all wf_stmt (snd file)) fs"
    and "(n, ci) \<in> set (classes self)"
  shows "calculate_wmc ci = (\<Sum>m\<in>set (methods ci). dict_get (method_complexity ci) m 1) \<and>
         int (card (set (methods ci))) \<le> calculate_wmc ci \<and>
         wmc (calculate_class_metrics built_ins self n ci) = calculate_wmc ci"
proof -
  have "class_ok ci'" if "(n', ci') \<in> set (classes (CKMetrics_init cf))" for n' ci'
    using that by (simp add: CKMetrics_init_def)
  then have ok: "class_ok ci"
    using assms(2) assms(3)[unfolded assms(1)] by (rule classes_ok_parse_directory)
  then have "distinct (methods ci)" by (simp add: class_ok_def)
  then have "calculate_wmc ci = (\<Sum>m\<in>set (methods ci). dict_get (method_complexity ci) m 1)"
    by (rule wmc_sum)
  moreover have "int (card (set (methods ci))) \<le> calculate_wmc ci"
    using ok by (rule wmc_ge_methods)
  ultimately show ?thesis using wmc_field by simp
qed

lemmas eval_visitors =
  process_method_def MethodVisitor_visit_def ComplexityVisitor_complexity_def
  mv_opt_def cv_opt_def set_update_def

lemma checker_state_eq: "classes checker_state = [(''Checker'', checker_info)]"
  by (simp add: checker_state_def checker_file_def example_method_def checker_info_def
      eval_extract eval_visitors)

theorem wmc_sum_and_bound_witness:
  "(''Checker'', checker_info) \<in> set (classes checker_state) \<and>
   list_all wf_stmt checker_file \<and>
   calculate_wmc checker_info = 4 \<and>
   int (card (set (methods checker_info))) \<le> calculate_wmc checker_info \<and>
   card (set (methods checker_info)) = 2 \<and>
   wmc (calculate_class_metrics {} checker_state ''Checker'' checker_info) = 4"
proof -
  have s: "checker_state = parse_directory [(''checker.py'', checker_file)] (CKMetrics_init None)"
    by (simp add: checker_state_def)
  have wf: "list_all wf_stmt checker_file"
    by (simp add: checker_file_def example_method_def wf_opt_def)
  then have wf': "list_all (\<lambda>file. list_all wf_stmt (snd file)) [(''checker.py'', checker_file)]"
    by simp
  have m: "(''Checker'', checker_info) \<in> set (classes checker_state)"
    by (simp add: checker_state_eq)
  have v: "calculate_wmc checker_info = 4" "card (set (methods checker_info)) = 2"
    by (simp_all add: calculate_wmc_def checker_info_def dict_get_def)
  show ?thesis
    using wmc_sum_and_bound[OF s wf' m, of "{}"] wf m v by simp
qed

section \<open>Coupling between object classes\<close>

lemma fold_cond_add:
  "distinct s \<Longrightarrow>
   distinct (fold (\<lambda>x s. if P x then set_add s x else s) xs s) \<and>
   set (fold (\<lambda>x s. if P x then set_add s x else s) xs s) = set s \<union> {x \<in> set xs. P x}"
proof (induction xs arbitrary: s)
  case Nil
  then show ?case by simp
next
  case (Cons x xs)
  let ?s = "if P x then set_add s x else s"
  have d: "distinct ?s" using Cons.prems by (simp add: distinct_set_add)
  have "set ?s = set s \<union> {y \<in> {x}. P y}" by (auto simp: set_set_add)
  with Cons.IH[OF d] show ?case by auto
qed

lemma fold_calls_add:
  "distinct s \<Longrightarrow>
   distinct (fold (\<lambda>(m, calls) s. fold (\<lambda>x s. if P x then set_add s x else s) calls s) d s) \<and>
   set (fold (\<lambda>(m, calls) s. fold (\<lambda>x s. if P x then set_add s x else s) calls s) d s)
     = set s \<union> {x \<in> \<Union> (set ` snd ` set d). P x}"
proof (induction d arbitrary: s)
  case Nil
  then show ?case by simp
next
  case (Cons p d)
  obtain m calls where p: "p = (m, calls)" by (cases p)
  let ?s = "fold (\<lambda>x s. if P x then set_add s x else s) calls s"
  have s: "distinct ?s" "set ?s = set s \<union> {x \<in> set calls. P x}"
    using fold_cond_add[OF Cons.prems, of P calls] by simp_all
  from Cons.IH[OF s(1)] show ?case by (auto simp: p s(2))
qed

lemma remove_if_present: "(if x \<in> set xs then removeAll x xs else xs) = removeAll x xs"
  by simp

lemma cbo_as_set: "calculate_cbo self class_name class_info = int (card (coupled_set self class_name class_info))"
proof -
  let ?P = "\<lambda>x. dict_contains (classes self) x \<and> x \<noteq> class_name"
  let ?c0 = "remdups (bases class_info @ called_classes class_info)"
  let ?c1 = "fold (\<lambda>(m, calls) s. fold (\<lambda>x s. if ?P x then set_add s x else s) calls s)
               (method_calls class_info) ?c0"
  let ?c2 = "fold (\<lambda>x s. if ?P x then set_add s x else s) (attributes class_info) ?c1"
  let ?c4 = "removeAll ''self'' (removeAll ''object'' ?c2)"
  have c1: "distinct ?c1"
    "set ?c1 = set ?c0 \<union> {x \<in> \<Union> (set ` snd ` set (method_calls class_info)). ?P x}"
    using fold_calls_add[of ?c0 ?P "method_calls class_info"] by simp_all
  have c2: "distinct ?c2" "set ?c2 = set ?c1 \<union> {x \<in> set (attributes class_info). ?P x}"
    using fold_cond_add[OF c1(1), of ?P "attributes class_info"] by simp_all
  have "distinct ?c4" using c2(1) by (simp add: distinct_removeAll)
  then have "card (set ?c4) = length ?c4" by (rule distinct_card)
  then have "int (length ?c4) = int (card (set ?c4))" by (rule arg_cong[OF sym])
  moreover have "set ?c4 = coupled_set self class_name class_info"
    unfolding coupled_set_def coincides_def by (simp only: set_removeAll c2(2) c1(2)) auto
  moreover have "calculate_cbo self class_name class_info = int (length ?c4)"
    unfolding calculate_cbo_def Let_def remove_if_present ..
  ultimately show ?thesis by simp
qed

lemma registry_state_eq: "classes registry_state = [(''Registry'', registry_info)]"
  by (simp add: registry_state_def registry_file_def registry_info_def eval_extract eval_visitors)

text \<open>
  C3. CBO is the size of the set of the declared bases, the receivers of qualified
  calls, and the called names and attribute names that coincide with another discovered
  class, without \<open>object\<close> and \<open>self\<close> (lemma \<open>cbo_as_set\<close>); and the class itself
  is never counted. The last part fails on \<open>Registry\<close>: the receiver of
  \<^verbatim>\<open>Registry.build()\<close> is the class's own name, it is recorded among the
  called classes, nothing removes it, and CBO is 1 for a class that refers to no other.
\<close>

theorem cbo_counts_own_name:
  "classes registry_state = [(''Registry'', registry_info)] \<and>
   called_classes registry_info = [''Registry''] \<and>
   calculate_cbo registry_state ''Registry'' registry_info = 1 \<and>
   cbo (calculate_class_metrics {} registry_state ''Registry'' registry_info) = 1 \<and>
   ''Registry'' \<in> coupled_set registry_state ''Registry'' registry_info"
proof -
  have a: "classes registry_state = [(''Registry'', registry_info)]" by (rule registry_state_eq)
  have b: "called_classes registry_info = [''Registry'']" by (simp add: registry_info_def)
  have c: "calculate_cbo registry_state ''Registry'' registry_info = 1"
    by (simp add: calculate_cbo_def a dict_contains_def set_add_def registry_info_def)
  have d: "cbo (calculate_class_metrics {} registry_state ''Registry'' registry_info) = 1"
    using c by (simp add: calculate_class_metrics_def Let_def)
  have e: "''Registry'' \<in> coupled_set registry_state ''Registry'' registry_info"
    by (simp add: coupled_set_def registry_info_def)
  from a b c d e show ?thesis by simp
qed

section \<open>Lack of cohesion in methods\<close>

lemma set_neighbors: "set (neighbors G v) = adjacent G `` {v}"
  by (force simp: neighbors_def adjacent_def)

lemma bfs_level_eq: "bfs_level G S = S \<union> adjacent G `` S"
  by (auto simp: bfs_level_def set_neighbors)

lemma adjacent_sym: "(u, v) \<in> adjacent G \<Longrightarrow> (v, u) \<in> adjacent G"
  by (auto simp: adjacent_def)

lemma adjacent_nodes: "wf_graph G \<Longrightarrow> (u, v) \<in> adjacent G \<Longrightarrow> v \<in> set (nodes G)"
proof -
  assume wf: "wf_graph G" and "(u, v) \<in> adjacent G"
  then consider "(u, v) \<in> set (edges G)" | "(v, u) \<in> set (edges G)"
    by (auto simp: adjacent_def)
  then show ?thesis
  proof cases
    case 1
    then have "snd (u, v) \<in> snd ` set (edges G)" by (rule imageI)
    then have "v \<in> snd ` set (edges G)" by simp
    then show ?thesis using wf unfolding wf_graph_def by blast
  next
    case 2
    then have "fst (v, u) \<in> fst ` set (edges G)" by (rule imageI)
    then have "v \<in> fst ` set (edges G)" by simp
    then show ?thesis using wf unfolding wf_graph_def by blast
  qed
qed

lemma funpow_grows:
  fixes f :: "'a set \<Rightarrow> 'a set"
  assumes infl: "\<And>S. S \<subseteq> f S" and closed: "\<And>S. S \<subseteq> A \<Longrightarrow> f S \<subseteq> A"
    and fin: "finite A" and S0: "S0 \<subseteq> A"
  shows "(f ^^ k) S0 \<subseteq> A \<and> (f ((f ^^ k) S0) = (f ^^ k) S0 \<or> k + card S0 \<le> card ((f ^^ k) S0))"
proof (induction k)
  case 0
  show ?case using S0 by simp
next
  case (Suc k)
  let ?S = "(f ^^ k) S0"
  have sub: "?S \<subseteq> A" using Suc by simp
  have sub': "f ?S \<subseteq> A" using sub by (rule closed)
  have "f (f ?S) = f ?S \<or> Suc k + card S0 \<le> card (f ?S)"
  proof (cases "f ?S = ?S")
    case True
    then show ?thesis by simp
  next
    case False
    then have "?S \<subset> f ?S" using infl[of ?S] by blast
    moreover have "finite (f ?S)" using sub' fin by (rule finite_subset)
    ultimately have "card ?S < card (f ?S)" by (simp add: psubset_card_mono)
    moreover have "k + card S0 \<le> card ?S" using Suc False by simp
    ultimately show ?thesis by simp
  qed
  then show ?case using sub' by simp
qed

lemma funpow_infl:
  fixes f :: "'a set \<Rightarrow> 'a set"
  assumes "\<And>S. S \<subseteq> f S"
  shows "S0 \<subseteq> (f ^^ k) S0"
proof (induction k)
  case 0
  show ?case by simp
next
  case (Suc k)
  have "(f ^^ k) S0 \<subseteq> f ((f ^^ k) S0)" by (rule assms)
  with Suc show ?case by simp
qed

lemma plain_bfs_fixpoint:
  assumes wf: "wf_graph G" and v: "v \<in> set (nodes G)"
  shows "bfs_level G (plain_bfs G v) = plain_bfs G v"
proof -
  let ?A = "set (nodes G)"
  let ?n = "length (nodes G)"
  have infl: "S \<subseteq> bfs_level G S" for S by (simp add: bfs_level_eq)
  have closed: "bfs_level G S \<subseteq> ?A" if "S \<subseteq> ?A" for S
    using that adjacent_nodes[OF wf] by (auto simp: bfs_level_eq)
  have g: "(bfs_level G ^^ ?n) {v} \<subseteq> ?A \<and>
        (bfs_level G ((bfs_level G ^^ ?n) {v}) = (bfs_level G ^^ ?n) {v} \<or>
         ?n + card {v} \<le> card ((bfs_level G ^^ ?n) {v}))"
    using infl closed by (rule funpow_grows) (use v in simp_all)
  have "card ((bfs_level G ^^ ?n) {v}) \<le> card ?A" using g by (simp add: card_mono)
  also have "card ?A \<le> ?n" by (rule card_length)
  finally have "\<not> ?n + card {v} \<le> card ((bfs_level G ^^ ?n) {v})" by simp
  then show ?thesis using g by (simp add: plain_bfs_def)
qed

lemma plain_bfs_sound: "(bfs_level G ^^ k) {v} \<subseteq> (adjacent G)\<^sup>* `` {v}"
proof (induction k)
  case 0
  show ?case by simp
next
  case (Suc k)
  have "adjacent G `` ((adjacent G)\<^sup>* `` {v}) \<subseteq> (adjacent G)\<^sup>* `` {v}"
    by (auto intro: rtrancl_into_rtrancl)
  with Suc show ?case by (auto simp: bfs_level_eq)
qed

lemma plain_bfs_component:
  assumes wf: "wf_graph G" and v: "v \<in> set (nodes G)"
  shows "plain_bfs G v = component_of G v"
proof
  show "plain_bfs G v \<subseteq> component_of G v"
    unfolding plain_bfs_def component_of_def by (rule plain_bfs_sound)
next
  let ?T = "plain_bfs G v"
  have "{v} \<subseteq> ?T" unfolding plain_bfs_def by (rule funpow_infl) (simp add: bfs_level_eq)
  then have v: "v \<in> ?T" by simp
  have step: "adjacent G `` ?T \<subseteq> ?T"
    using plain_bfs_fixpoint[OF wf assms(2)] by (auto simp: bfs_level_eq)
  have "u \<in> ?T" if "(v, u) \<in> (adjacent G)\<^sup>*" for u
    using that
  proof (induction rule: rtrancl_induct)
    case base
    show ?case by (rule v)
  next
    case (step y z)
    then show ?case using \<open>adjacent G `` ?T \<subseteq> ?T\<close> by blast
  qed
  then show "component_of G v \<subseteq> ?T" by (auto simp: component_of_def)
qed
lemma component_refl: "v \<in> component_of G v"
  by (simp add: component_of_def)

lemma adjacent_rtrancl_sym: "(u, v) \<in> (adjacent G)\<^sup>* \<Longrightarrow> (v, u) \<in> (adjacent G)\<^sup>*"
proof (induction rule: rtrancl_induct)
  case base
  show ?case by simp
next
  case (step y z)
  have "(z, y) \<in> adjacent G" using step.hyps(2) by (rule adjacent_sym)
  then show ?case using step.IH by (rule converse_rtrancl_into_rtrancl)
qed

lemma component_eq: "u \<in> component_of G v \<Longrightarrow> component_of G u = component_of G v"
proof -
  assume "u \<in> component_of G v"
  then have vu: "(v, u) \<in> (adjacent G)\<^sup>*" by (simp add: component_of_def)
  then have uv: "(u, v) \<in> (adjacent G)\<^sup>*" by (rule adjacent_rtrancl_sym)
  show ?thesis unfolding component_of_def using vu uv by (auto intro: rtrancl_trans)
qed

lemma connected_components_set:
  assumes wf: "wf_graph G"
  shows "set vs \<subseteq> set (nodes G) \<Longrightarrow> (\<And>u. u \<in> seen \<Longrightarrow> component_of G u \<subseteq> seen) \<Longrightarrow>
         distinct (connected_components G vs seen) \<and>
         set (connected_components G vs seen) = component_of G ` (set vs - seen)"
proof (induction vs arbitrary: seen)
  case Nil
  show ?case by simp
next
  case (Cons v vs)
  have sub: "set vs \<subseteq> set (nodes G)" and v: "v \<in> set (nodes G)" using Cons.prems(1) by simp_all
  show ?case
  proof (cases "v \<in> seen")
    case True
    have "set (v # vs) - seen = set vs - seen" using True by auto
    then show ?thesis using Cons.IH[OF sub Cons.prems(2)] True by simp
  next
    case False
    let ?c = "component_of G v"
    have c: "plain_bfs G v = ?c" using wf v by (rule plain_bfs_component)
    have closed: "component_of G u \<subseteq> seen \<union> ?c" if "u \<in> seen \<union> ?c" for u
      using that Cons.prems(2)[of u] component_eq[of u G v] by auto
    have ih: "distinct (connected_components G vs (seen \<union> ?c))"
      "set (connected_components G vs (seen \<union> ?c)) = component_of G ` (set vs - (seen \<union> ?c))"
      using Cons.IH[OF sub closed] by simp_all
    have notin: "?c \<notin> component_of G ` (set vs - (seen \<union> ?c))"
    proof
      assume "?c \<in> component_of G ` (set vs - (seen \<union> ?c))"
      then obtain u where u: "u \<notin> ?c" "?c = component_of G u" by auto
      then show False using component_refl[of u G] by simp
    qed
    have "component_of G ` (set (v # vs) - seen) = insert ?c (component_of G ` (set vs - (seen \<union> ?c)))"
    proof
      show "component_of G ` (set (v # vs) - seen) \<subseteq> insert ?c (component_of G ` (set vs - (seen \<union> ?c)))"
      proof
        fix X assume "X \<in> component_of G ` (set (v # vs) - seen)"
        then obtain u where u: "u \<in> set (v # vs)" "u \<notin> seen" "X = component_of G u" by auto
        show "X \<in> insert ?c (component_of G ` (set vs - (seen \<union> ?c)))"
        proof (cases "u \<in> ?c")
          case True
          then show ?thesis using u(3) component_eq[of u G v] by simp
        next
          case False
          then have "u \<noteq> v" using component_refl[of v G] by auto
          then show ?thesis using u False by auto
        qed
      qed
    next
      show "insert ?c (component_of G ` (set vs - (seen \<union> ?c))) \<subseteq> component_of G ` (set (v # vs) - seen)"
        using False by auto
    qed
    then show ?thesis using ih notin False c by (simp add: Let_def)
  qed
qed

lemma number_connected_components_card:
  assumes "wf_graph G"
  shows "number_connected_components G = card (component_of G ` set (nodes G))"
proof -
  have "distinct (connected_components G (nodes G) {}) \<and>
        set (connected_components G (nodes G) {}) = component_of G ` (set (nodes G) - {})"
    using assms by (rule connected_components_set) simp_all
  then show ?thesis
    unfolding number_connected_components_def using distinct_card by fastforce
qed
lemma lcom4_graph_steps:
  "lcom4_graph ci =
     fold (lcom4_step ci) (methods ci) (fold (\<lambda>m g. add_node g m) (methods ci) empty_graph)"
proof -
  have "(\<lambda>method1 graph.
           (let attrs1 = dict_get (method_attrs ci) method1 [];
                graph1 = fold (\<lambda>method2 graph.
                           if method1 \<noteq> method2 then
                             (let attrs2 = dict_get (method_attrs ci) method2 []
                              in if set attrs1 \<inter> set attrs2 \<noteq> {} then add_edge graph method1 method2
                                 else graph)
                           else graph)
                         (methods ci) graph
            in fold (\<lambda>called graph.
                 if called \<in> set (methods ci) then add_edge graph method1 called else graph)
                 (dict_get (method_calls ci) method1 []) graph1)) = lcom4_step ci"
    unfolding lcom4_step_def shares_attribute_def Let_def
    by (intro ext arg_cong2[where f = "\<lambda>f g. fold _ _ (fold f _ g)"]) auto
  then show ?thesis unfolding lcom4_graph_def Let_def by simp
qed

lemma fold_add_node:
  "set (nodes (fold (\<lambda>m g. add_node g m) ms G)) = set (nodes G) \<union> set ms \<and>
   edges (fold (\<lambda>m g. add_node g m) ms G) = edges G"
  by (induction ms arbitrary: G) (auto simp: nodes_add_node edges_add_node)

lemma fold_add_edge:
  "set (nodes (fold (\<lambda>x g. if P x then add_edge g a x else g) xs G))
     = set (nodes G) \<union> {y. \<exists>x\<in>set xs. P x \<and> (y = a \<or> y = x)} \<and>
   set (edges (fold (\<lambda>x g. if P x then add_edge g a x else g) xs G))
     = set (edges G) \<union> {(a, x) | x. x \<in> set xs \<and> P x}"
proof (induction xs arbitrary: G)
  case Nil
  show ?case by simp
next
  case (Cons x xs)
  show ?case
  proof (cases "P x")
    case True
    then show ?thesis
      using Cons[of "add_edge G a x"] by (simp add: nodes_add_edge edges_add_edge) blast
  next
    case False
    then show ?thesis using Cons[of G] by simp blast
  qed
qed
lemma lcom4_step_graph:
  assumes sub: "set (methods ci) \<subseteq> set (nodes g)" and m1: "m1 \<in> set (methods ci)"
  shows "set (nodes (lcom4_step ci m1 g)) = set (nodes g) \<and>
         set (edges (lcom4_step ci m1 g)) = set (edges g) \<union>
           {(m1, x) | x. x \<in> set (methods ci) \<and>
              ((m1 \<noteq> x \<and> shares_attribute ci m1 x) \<or> calls_method ci m1 x)}"
proof -
  let ?P = "\<lambda>x. m1 \<noteq> x \<and> shares_attribute ci m1 x"
  let ?Q = "\<lambda>x. x \<in> set (methods ci)"
  let ?g1 = "fold (\<lambda>x g. if ?P x then add_edge g m1 x else g) (methods ci) g"
  let ?g2 = "fold (\<lambda>x g. if ?Q x then add_edge g m1 x else g) (dict_get (method_calls ci) m1 []) ?g1"
  have n1: "set (nodes ?g1) = set (nodes g) \<union> {y. \<exists>x\<in>set (methods ci). ?P x \<and> (y = m1 \<or> y = x)}"
    and e1: "set (edges ?g1) = set (edges g) \<union> {(m1, x) | x. x \<in> set (methods ci) \<and> ?P x}"
    using fold_add_edge[of ?P m1 "methods ci" g] by simp_all
  have n2: "set (nodes ?g2) = set (nodes ?g1) \<union>
              {y. \<exists>x\<in>set (dict_get (method_calls ci) m1 []). ?Q x \<and> (y = m1 \<or> y = x)}"
    and e2: "set (edges ?g2) = set (edges ?g1) \<union>
              {(m1, x) | x. x \<in> set (dict_get (method_calls ci) m1 []) \<and> ?Q x}"
    using fold_add_edge[of ?Q m1 "dict_get (method_calls ci) m1 []" ?g1] by simp_all
  have "set (nodes ?g1) = set (nodes g)" unfolding n1 using sub m1 by blast
  then have n: "set (nodes ?g2) = set (nodes g)" unfolding n2 using sub m1 by blast
  have e: "set (edges ?g2) = set (edges g) \<union>
           {(m1, x) | x. x \<in> set (methods ci) \<and>
              ((m1 \<noteq> x \<and> shares_attribute ci m1 x) \<or> calls_method ci m1 x)}"
    unfolding e2 e1 calls_method_def by blast
  show ?thesis unfolding lcom4_step_def using n e by (rule conjI)
qed

lemma fold_lcom4_step:
  "set ms \<subseteq> set (methods ci) \<Longrightarrow> set (methods ci) \<subseteq> set (nodes g) \<Longrightarrow>
   set (nodes (fold (lcom4_step ci) ms g)) = set (nodes g) \<and>
   set (edges (fold (lcom4_step ci) ms g)) = set (edges g) \<union>
     {(m1, x). m1 \<in> set ms \<and> x \<in> set (methods ci) \<and>
        ((m1 \<noteq> x \<and> shares_attribute ci m1 x) \<or> calls_method ci m1 x)}"
proof (induction ms arbitrary: g)
  case Nil
  show ?case by simp
next
  case (Cons m ms)
  have m: "m \<in> set (methods ci)" and ms: "set ms \<subseteq> set (methods ci)" using Cons.prems(1) by simp_all
  note s = lcom4_step_graph[OF Cons.prems(2) m]
  have sub: "set (methods ci) \<subseteq> set (nodes (lcom4_step ci m g))" using s Cons.prems(2) by simp
  note ih = Cons.IH[OF ms sub]
  have "set (nodes (fold (lcom4_step ci) (m # ms) g)) = set (nodes g)" using ih s by simp
  moreover have "set (edges (fold (lcom4_step ci) (m # ms) g)) = set (edges g) \<union>
     {(m1, x). m1 \<in> set (m # ms) \<and> x \<in> set (methods ci) \<and>
        ((m1 \<noteq> x \<and> shares_attribute ci m1 x) \<or> calls_method ci m1 x)}"
  proof -
    have "set (edges (fold (lcom4_step ci) (m # ms) g)) =
          (set (edges g) \<union> {(m, x) | x. x \<in> set (methods ci) \<and>
              ((m \<noteq> x \<and> shares_attribute ci m x) \<or> calls_method ci m x)}) \<union>
          {(m1, x). m1 \<in> set ms \<and> x \<in> set (methods ci) \<and>
            ((m1 \<noteq> x \<and> shares_attribute ci m1 x) \<or> calls_method ci m1 x)}"
      using ih s by simp
    also have "\<dots> = set (edges g) \<union>
     {(m1, x). m1 \<in> set (m # ms) \<and> x \<in> set (methods ci) \<and>
        ((m1 \<noteq> x \<and> shares_attribute ci m1 x) \<or> calls_method ci m1 x)}"
      by auto
    finally show ?thesis .
  qed
  ultimately show ?case by (rule conjI)
qed

lemma lcom4_graph_nodes: "set (nodes (lcom4_graph ci)) = set (methods ci)"
proof -
  let ?g0 = "fold (\<lambda>m g. add_node g m) (methods ci) empty_graph"
  have g0: "set (nodes ?g0) = set (methods ci)"
    using fold_add_node[of "methods ci" empty_graph] by (simp add: empty_graph_def)
  then have "set (methods ci) \<subseteq> set (nodes ?g0)" by simp
  from fold_lcom4_step[OF subset_refl this] show ?thesis
    unfolding lcom4_graph_steps using g0 by simp
qed

lemma lcom4_graph_edges:
  "set (edges (lcom4_graph ci)) =
     {(m1, x). m1 \<in> set (methods ci) \<and> x \<in> set (methods ci) \<and>
        ((m1 \<noteq> x \<and> shares_attribute ci m1 x) \<or> calls_method ci m1 x)}"
proof -
  let ?g0 = "fold (\<lambda>m g. add_node g m) (methods ci) empty_graph"
  have g0: "set (nodes ?g0) = set (methods ci)" "edges ?g0 = []"
    using fold_add_node[of "methods ci" empty_graph] by (simp_all add: empty_graph_def)
  then have "set (methods ci) \<subseteq> set (nodes ?g0)" by simp
  from fold_lcom4_step[OF subset_refl this] show ?thesis
    unfolding lcom4_graph_steps using g0(2) by simp
qed

lemma wf_lcom4_graph: "wf_graph (lcom4_graph ci)"
proof -
  have "u \<in> set (nodes (lcom4_graph ci)) \<and> v \<in> set (nodes (lcom4_graph ci))"
    if "(u, v) \<in> set (edges (lcom4_graph ci))" for u v
    using that unfolding lcom4_graph_edges lcom4_graph_nodes by simp
  then show ?thesis unfolding wf_graph_def by (auto simp del: lcom4_graph_nodes)
qed

lemma shares_attribute_sym: "shares_attribute ci a b \<longleftrightarrow> shares_attribute ci b a"
  unfolding shares_attribute_def by blast

lemma adjacent_lcom4_graph:
  "(a, b) \<in> adjacent (lcom4_graph ci) \<longleftrightarrow>
     (a, b) \<in> related ci \<or> (a = b \<and> a \<in> set (methods ci) \<and> calls_method ci a a)"
  unfolding adjacent_def related_def lcom4_graph_edges
  using shares_attribute_sym[of ci a b] by auto

lemma rtrancl_adjacent_lcom4_graph: "(adjacent (lcom4_graph ci))\<^sup>* = (related ci)\<^sup>*"
proof
  have "adjacent (lcom4_graph ci) \<subseteq> (related ci)\<^sup>="
    using adjacent_lcom4_graph[of _ _ ci] by auto
  then have "(adjacent (lcom4_graph ci))\<^sup>* \<subseteq> ((related ci)\<^sup>=)\<^sup>*" by (rule rtrancl_mono)
  then show "(adjacent (lcom4_graph ci))\<^sup>* \<subseteq> (related ci)\<^sup>*" by simp
next
  have "related ci \<subseteq> adjacent (lcom4_graph ci)"
    using adjacent_lcom4_graph[of _ _ ci] by auto
  then show "(related ci)\<^sup>* \<subseteq> (adjacent (lcom4_graph ci))\<^sup>*" by (rule rtrancl_mono)
qed

lemma lcom4_spec_components: "calculate_lcom4 ci = int (card (spec_components ci))"
proof (cases "methods ci = []")
  case True
  then show ?thesis by (simp add: calculate_lcom4_def spec_components_def)
next
  case False
  have "number_connected_components (lcom4_graph ci)
        = card (component_of (lcom4_graph ci) ` set (nodes (lcom4_graph ci)))"
    using wf_lcom4_graph by (rule number_connected_components_card)
  also have "\<dots> = card (spec_components ci)"
    unfolding spec_components_def component_of_def rtrancl_adjacent_lcom4_graph lcom4_graph_nodes ..
  finally show ?thesis using False by (simp add: calculate_lcom4_def)
qed
lemma extracted_extract_class:
  assumes init: "\<And>n bs. P (ClassInfo_init n bs)"
    and step: "\<And>item ci. P ci \<Longrightarrow> P (process_item item ci)"
  shows "P (extract_class n bs body)"
proof -
  have "P (fold process_item body ci)" if "P ci" for ci
    using that by (induction body arbitrary: ci) (simp_all add: step)
  then show ?thesis unfolding extract_class_def using init by blast
qed

lemma extracted_process_node:
  assumes init: "\<And>n bs. P (ClassInfo_init n bs)"
    and step: "\<And>item ci. P ci \<Longrightarrow> P (process_item item ci)"
    and inv: "\<And>n ci. (n, ci) \<in> set (classes self) \<Longrightarrow> P ci"
    and m: "(n, ci) \<in> set (classes (process_node f d self))"
  shows "P ci"
proof (cases f d self rule: process_node_cases)
  case same
  then show ?thesis using inv m by simp
next
  case (cls c nb kws body decs)
  have e: "P (extract_class c (resolve_bases nb) body)"
    using init step by (rule extracted_extract_class)
  have "classes (process_node f d self) = dict_set (classes self) c (extract_class c (resolve_bases nb) body)"
    by (simp add: cls(3))
  then have "(n, ci) \<in> set (dict_set (classes self) c (extract_class c (resolve_bases nb) body))"
    using m by simp
  then have "(n, ci) = (c, extract_class c (resolve_bases nb) body) \<or> (n, ci) \<in> set (classes self)"
    by (rule dict_set_cases)
  then show ?thesis
  proof
    assume "(n, ci) = (c, extract_class c (resolve_bases nb) body)"
    then show ?thesis using e by simp
  next
    assume "(n, ci) \<in> set (classes self)"
    then show ?thesis by (rule inv)
  qed
qed

lemma extracted_process_nodes:
  assumes init: "\<And>n bs. P (ClassInfo_init n bs)"
    and step: "\<And>item ci. P ci \<Longrightarrow> P (process_item item ci)"
  shows "(\<And>n ci. (n, ci) \<in> set (classes self) \<Longrightarrow> P ci) \<Longrightarrow>
         (n, ci) \<in> set (classes (process_nodes items self)) \<Longrightarrow> P ci"
proof (induction items arbitrary: self)
  case Nil
  then show ?case by (simp add: process_nodes_def)
next
  case (Cons a items)
  have s: "P ci'" if "(n', ci') \<in> set (classes (process_node (fst a) (snd a) self))" for n' ci'
    using init step Cons.prems(1) that by (rule extracted_process_node)
  have "(n, ci) \<in> set (classes (process_nodes items (process_node (fst a) (snd a) self)))"
    using Cons.prems(2) by (cases a) (simp add: process_nodes_def)
  with s show ?case by (rule Cons.IH)
qed

lemma extracted_classes:
  assumes init: "\<And>n bs. P (ClassInfo_init n bs)"
    and step: "\<And>item ci. P ci \<Longrightarrow> P (process_item item ci)"
    and m: "(n, ci) \<in> set (classes (parse_directory fs (CKMetrics_init cf)))"
  shows "P ci"
proof -
  have a: "P ci'" if "(n', ci') \<in> set (classes (CKMetrics_init cf))" for n' ci'
    using that by (simp add: CKMetrics_init_def)
  have b: "(n, ci) \<in> set (classes (process_nodes (walk_items fs) (CKMetrics_init cf)))"
    using m by (simp add: parse_directory_nodes)
  show ?thesis
  proof (rule extracted_process_nodes[where P = P and self = "CKMetrics_init cf"])
    show "P (ClassInfo_init n bs)" for n bs by (rule init)
    show "P (process_item item ci)" if "P ci" for item ci using that by (rule step)
    show "P ci'" if "(n', ci') \<in> set (classes (CKMetrics_init cf))" for n' ci' using that by (rule a)
    show "(n, ci) \<in> set (classes (process_nodes (walk_items fs) (CKMetrics_init cf)))" by (rule b)
  qed
qed

lemma methods_assign_target: "methods (assign_target e ci) = methods ci"
  by (induction e ci rule: assign_target.induct) simp_all

lemma methods_assign_targets: "methods (fold assign_target ts ci) = methods ci"
  by (induction ts arbitrary: ci) (simp_all add: methods_assign_target)

lemma distinct_methods_process_item:
  assumes "distinct (methods ci)"
  shows "distinct (methods (process_item item ci))"
proof (cases item)
  case (FunctionDef n args body decs)
  then show ?thesis using assms by (simp add: process_method_def Let_def distinct_set_add)
next
  case (AsyncFunctionDef n args body decs)
  then show ?thesis using assms by (simp add: process_method_def Let_def distinct_set_add)
qed (use assms in \<open>simp_all add: methods_assign_target methods_assign_targets\<close>)

lemma distinct_methods_extracted:
  assumes "(n, ci) \<in> set (classes (parse_directory fs (CKMetrics_init cf)))"
  shows "distinct (methods ci)"
proof (rule extracted_classes[where P = "\<lambda>ci. distinct (methods ci)", OF _ _ assms])
  show "distinct (methods (ClassInfo_init n bs))" for n bs by (simp add: ClassInfo_init_def)
  show "distinct (methods (process_item item ci))" if "distinct (methods ci)" for item ci
    using that by (rule distinct_methods_process_item)
qed

text \<open>
  C8. For every class extracted from parsed files, the graph that LCOM4 is computed
  on has the methods of the class as its nodes, and two distinct methods are joined by an
  edge exactly when their sets of self-qualified attributes intersect or one calls the
  other; LCOM4 is the number of connected components of that graph, and 0 for a class
  without methods; the normalized value is \<open>(LCOM4 - 1) / (methodCount - 1)\<close> when the
  class has more than one method and 0 otherwise.
\<close>

theorem lcom4_components:
  assumes "self = parse_directory fs (CKMetrics_init cf)"
    and "(n, ci) \<in> set (classes self)"
  shows "set (nodes (lcom4_graph ci)) = set (methods ci) \<and>
         (\<forall>m1 m2. m1 \<noteq> m2 \<longrightarrow> ((m1, m2) \<in> adjacent (lcom4_graph ci) \<longleftrightarrow> (m1, m2) \<in> related ci)) \<and>
         calculate_lcom4 ci = int (card (spec_components ci)) \<and>
         (set (methods ci) = {} \<longrightarrow> calculate_lcom4 ci = 0) \<and>
         lcom4 (calculate_class_metrics built_ins self n ci) = calculate_lcom4 ci \<and>
         lcom4_normalized (calculate_class_metrics built_ins self n ci) =
           (if 1 < card (set (methods ci))
            then of_int (calculate_lcom4 ci - 1) / of_int (int (card (set (methods ci))) - 1)
            else 0)"
proof -
  have d: "distinct (methods ci)"
    using assms(2) unfolding assms(1) by (rule distinct_methods_extracted)
  then have c: "card (set (methods ci)) = length (methods ci)" by (rule distinct_card)
  have 1: "set (nodes (lcom4_graph ci)) = set (methods ci)" by (rule lcom4_graph_nodes)
  have 2: "\<forall>m1 m2. m1 \<noteq> m2 \<longrightarrow> ((m1, m2) \<in> adjacent (lcom4_graph ci) \<longleftrightarrow> (m1, m2) \<in> related ci)"
    by (simp add: adjacent_lcom4_graph)
  have 3: "calculate_lcom4 ci = int (card (spec_components ci))" by (rule lcom4_spec_components)
  have 4: "set (methods ci) = {} \<longrightarrow> calculate_lcom4 ci = 0" by (simp add: calculate_lcom4_def)
  have 5: "lcom4 (calculate_class_metrics built_ins self n ci) = calculate_lcom4 ci"
    by (simp add: calculate_class_metrics_def Let_def)
  have 6: "lcom4_normalized (calculate_class_metrics built_ins self n ci) =
           (if 1 < card (set (methods ci))
            then of_int (calculate_lcom4 ci - 1) / of_int (int (card (set (methods ci))) - 1)
            else 0)"
    unfolding c by (simp add: calculate_class_metrics_def calculate_normalized_lcom4_def Let_def)
  from 1 2 3 4 5 6 show ?thesis by (intro conjI)
qed

lemma account_state_eq: "classes account_state = [(''Account'', account_info)]"
  by (simp add: account_state_def account_file_def account_info_def eval_extract eval_visitors)

lemma account_lcom4: "calculate_lcom4 account_info = 2"
  by (simp add: calculate_lcom4_def lcom4_graph_def account_info_def dict_get_def Let_def
      number_connected_components_def plain_bfs_def bfs_level_def neighbors_def
      empty_graph_def add_node_def add_edge_def set_add_def)

theorem lcom4_components_witness:
  "(''Account'', account_info) \<in> set (classes account_state) \<and>
   calculate_lcom4 account_info = 2 \<and>
   card (spec_components account_info) = 2 \<and>
   card (set (methods account_info)) = 4 \<and>
   lcom4 (calculate_class_metrics {} account_state ''Account'' account_info) = 2 \<and>
   lcom4_normalized (calculate_class_metrics {} account_state ''Account'' account_info) = 1 / 3"
proof -
  have s: "account_state = parse_directory [(''account.py'', account_file)] (CKMetrics_init None)"
    by (simp add: account_state_def)
  have m: "(''Account'', account_info) \<in> set (classes account_state)"
    by (simp add: account_state_eq)
  have c: "card (set (methods account_info)) = 4" by (simp add: account_info_def)
  show ?thesis
    using lcom4_components[OF s m, of "{}"] m c account_lcom4 by simp
qed

end
